theory Spec2Isabelle
  imports Main "HOL-Library.Word" "HOL-Library.AList" "HOL-Library.Multiset"
begin

chapter \<open>The model\<close>

section \<open>Quantization: \<open>quantization::clip\<close> (include/glow/Quantization/Base/Base.h)\<close>

text \<open>
  The template \<open>clip<SrcTy, DestTy>\<close> is instantiated with C++ integer types. An integer
  type is described by its signedness and its width in bits; a value of the type is the
  mathematical integer it denotes.
\<close>

record IntTy =
  signedTy :: bool
  width :: nat

definition int8_t :: IntTy where "int8_t = \<lparr>signedTy = True, width = 8\<rparr>"

definition uint8_t :: IntTy where "uint8_t = \<lparr>signedTy = False, width = 8\<rparr>"

definition int16_t :: IntTy where "int16_t = \<lparr>signedTy = True, width = 16\<rparr>"

definition int32_t :: IntTy where "int32_t = \<lparr>signedTy = True, width = 32\<rparr>"

definition uint32_t :: IntTy where "uint32_t = \<lparr>signedTy = False, width = 32\<rparr>"

definition int64_t :: IntTy where "int64_t = \<lparr>signedTy = True, width = 64\<rparr>"

text \<open>\<open>std::numeric_limits<T>::min()\<close> and \<open>max()\<close>.\<close>

definition numeric_limits_min :: "IntTy \<Rightarrow> int" where
  "numeric_limits_min T = (if signedTy T then - (2 ^ (width T - 1)) else 0)"

definition numeric_limits_max :: "IntTy \<Rightarrow> int" where
  "numeric_limits_max T = (if signedTy T then 2 ^ (width T - 1) - 1 else 2 ^ width T - 1)"

definition in_range :: "IntTy \<Rightarrow> int \<Rightarrow> bool" where
  "in_range T v \<longleftrightarrow> numeric_limits_min T \<le> v \<and> v \<le> numeric_limits_max T"

text \<open>
  Integral conversion to type \<open>T\<close>: the value is kept when \<open>T\<close> can represent it and is
  reduced modulo \<open>2 ^ width T\<close> otherwise (two's complement for a signed \<open>T\<close>).
\<close>

definition convert :: "IntTy \<Rightarrow> int \<Rightarrow> int" where
  "convert T v =
     (if signedTy T
      then (v + 2 ^ (width T - 1)) mod 2 ^ width T - 2 ^ (width T - 1)
      else v mod 2 ^ width T)"

text \<open>
  \<^verbatim>\<open>
  template <class SrcTy, class DestTy> DestTy clip(SrcTy in) {
    static_assert(sizeof(SrcTy) >= sizeof(DestTy), "Invalid types");
    auto mx = std::numeric_limits<DestTy>::max();
    auto mn = std::numeric_limits<DestTy>::min();
    return std::max<SrcTy>(mn, std::min<SrcTy>(mx, in));
  }
  \<close>
  \<open>mx\<close> and \<open>mn\<close> have type \<open>DestTy\<close>; \<open>std::min<SrcTy>\<close> and \<open>std::max<SrcTy>\<close> take
  their arguments as \<open>SrcTy\<close>, so both limits are converted to \<open>SrcTy\<close>, and the result
  is converted to \<open>DestTy\<close> on return.
\<close>

definition clip :: "IntTy \<Rightarrow> IntTy \<Rightarrow> int \<Rightarrow> int" where
  "clip SrcTy DestTy inp =
     (let mx = numeric_limits_max DestTy;
          mn = numeric_limits_min DestTy
      in convert DestTy (max (convert SrcTy mn) (min (convert SrcTy mx) inp)))"

text \<open>The \<open>static_assert\<close> of \<open>clip\<close>, on widths in bits.\<close>

definition clip_static_assert :: "IntTy \<Rightarrow> IntTy \<Rightarrow> bool" where
  "clip_static_assert SrcTy DestTy \<longleftrightarrow> width DestTy \<le> width SrcTy"

section \<open>The host orchestrator (lib/Runtime/HostManager/HostManager.cpp)\<close>

subsection \<open>Values and errors\<close>

text \<open>
  \<open>size_t\<close> is the 64-bit unsigned integer of the LP64 hosts the runtime is built for;
  \<open>++\<close> and \<open>--\<close> on it wrap around. The members of \<open>HostManager\<close> and \<open>NetworkData\<close>
  are declared in HostManager.h, which is not among the sources. Their types are read off
  their uses in HostManager.cpp: the active request count is read into a \<open>size_t\<close> (line
  299) and compared with \<open>config_.maxActiveRequests\<close>, which is printed with \<open>%zu\<close>; the
  request counter is returned as the Run Identifier; the reference count is compared with
  0 and stepped by one. All three are taken as \<open>size_t\<close>. By the spec they are mutated
  atomically.
\<close>

type_synonym size_t = "64 word"

type_synonym RunIdentifierTy = size_t

type_synonym DeviceIDTy = nat

text \<open>The error codes that \<open>HostManager.cpp\<close> names.\<close>

datatype ErrorCode =
  RUNTIME_ERROR | RUNTIME_NET_NOT_FOUND | RUNTIME_REQUEST_REFUSED | RUNTIME_NET_BUSY

datatype GlowErr = MAKE_ERR ErrorCode string

text \<open>An \<open>llvm::Error\<close> is success (\<open>None\<close>) or carries an error.\<close>

type_synonym Error = "GlowErr option"

text \<open>
  Modelled from the spec: \<open>OneErrOnly\<close> is declared in Support/Error.h, which is not among
  the sources; the spec describes it as first-error-wins aggregation: \<open>set\<close> keeps the
  error already held and stores the new one only when none is held.
\<close>

definition OneErrOnly_set :: "Error \<Rightarrow> Error \<Rightarrow> Error" where
  "OneErrOnly_set held e = (case held of None \<Rightarrow> e | Some h \<Rightarrow> Some h)"

text \<open>Decimal rendering of a number, for \<open>%lu\<close> and \<open>%zu\<close> in \<open>strFormat\<close>.\<close>

fun to_string :: "nat \<Rightarrow> string" where
  "to_string n =
     (if n < 10 then [char_of (48 + n)]
      else to_string (n div 10) @ [char_of (48 + n mod 10)])"

declare to_string.simps [simp del]

subsection \<open>The data the orchestrator holds\<close>

text \<open>
  A caller's callback (\<open>ResultCBTy\<close>) and an execution context are opaque to the
  orchestrator: it only passes them on. Each is identified by a number.
\<close>

type_synonym ResultCBTy = nat

type_synonym ExecutionContext = nat

record DAGNode =
  name :: string
  deviceIDs :: "DeviceIDTy list"

record DAG =
  root :: DAGNode
  nodes :: "DAGNode list"

record Module =
  getFunctions :: "string list"
  stripped :: bool

record NetworkData =
  dag :: DAG
  module :: Module
  refcount :: size_t

record DeviceInfo =
  availableMemory :: nat
  backendName :: string
  nonSupportedNodes :: string
  supportedNodes :: string

text \<open>
  A \<open>DeviceManager\<close> is an external collaborator. The record holds its configuration and
  what each of its operations answers: \<open>evictNetwork\<close> is the error its callback receives
  (the callback is invoked exactly once, and \<open>removeNetwork\<close> waits for it).
\<close>

record DeviceManager =
  deviceConfigName :: string
  deviceBackend :: string
  init :: Error
  stop :: Error
  evictNetwork :: "string \<Rightarrow> Error"
  getDeviceInfo :: DeviceInfo
  getAvailableMemory :: nat
  getBackendName :: string
  getParamByName :: "string \<Rightarrow> string"

record HostConfig =
  executorThreads :: size_t
  maxActiveRequests :: size_t

text \<open>
  Modelled from the spec: the Executor (\<open>ThreadPoolExecutor\<close>) is not among the sources.
  The spec gives its contract: \<open>run\<close> does not block and the completion callback it is
  given is invoked exactly once per run; \<open>shutdown\<close> stops accepting new scheduling and
  blocks until the work in flight has drained. The model keeps the runs whose completion
  callback is still owed. The completion callback \<open>runNetwork\<close> passes is a closure over
  the network name and the caller's callback, held here as that pair.
\<close>

type_synonym Completion = "string \<times> ResultCBTy"

record ThreadPoolExecutor =
  inflight :: "(RunIdentifierTy \<times> ExecutionContext \<times> Completion) list"
  shuttingDown :: bool

text \<open>
  \<open>networks_\<close> is a map from names to \<open>NetworkData\<close>, held as an association list with
  one entry per name: its order stands for the iteration order of the map, of which the
  code uses \<open>begin()\<close>. \<open>devices_\<close> has the keys \<open>0, 1, ...\<close> that \<open>init\<close> assigns, so it
  is a list indexed by the device id. The members carry the names of the source without
  their trailing underscore.
\<close>

record HostManager =
  config :: HostConfig
  networks :: "(string \<times> NetworkData) list"
  devices :: "DeviceManager list"
  executor :: ThreadPoolExecutor
  totalRequestCount :: size_t
  activeRequestCount :: size_t

text \<open>
  What an operation does to the world outside the orchestrator, in the order it does
  it. \<open>CallbackInvoked\<close> is a call of a caller's callback, with the Run Identifier, the
  error and the context it receives and the state of the orchestrator at the moment of the
  call.
\<close>

datatype Event =
  CallbackInvoked ResultCBTy RunIdentifierTy Error ExecutionContext HostManager
  | ExecutorRun string ExecutionContext RunIdentifierTy Completion
  | ExecutorShutdown
  | EvictNetwork DeviceIDTy string
  | RemoveFunction string
  | Stop DeviceIDTy

subsection \<open>\<open>removeNetwork\<close>\<close>

text \<open>
  The inner loop of \<open>removeNetwork\<close>: for each device of a node, \<open>evictNetwork\<close> is
  called and awaited, and its error goes into the \<open>OneErrOnly\<close>. \<open>devices_[device]\<close> on
  a device id that \<open>devices_\<close> does not hold yields a null pointer, and the call through
  it is undefined: the result is \<open>None\<close>.
\<close>

fun evict_devices ::
  "DeviceManager list \<Rightarrow> string \<Rightarrow> DeviceIDTy list \<Rightarrow> Error \<Rightarrow> (Error \<times> Event list) option" where
  "evict_devices devs nodeName [] err = Some (err, [])"
| "evict_devices devs nodeName (device # ds) err =
     (if device < length devs
      then (let removeErr = evictNetwork (devs ! device) nodeName
            in case evict_devices devs nodeName ds (OneErrOnly_set err removeErr) of
                 None \<Rightarrow> None
               | Some (e, ev) \<Rightarrow> Some (e, EvictNetwork device nodeName # ev))
      else None)"

text \<open>The outer loop: after a node's devices, the Provisioner forgets the node.\<close>

fun evict_nodes ::
  "DeviceManager list \<Rightarrow> DAGNode list \<Rightarrow> Error \<Rightarrow> (Error \<times> Event list) option" where
  "evict_nodes devs [] err = Some (err, [])"
| "evict_nodes devs (node # ns) err =
     (case evict_devices devs (name node) (deviceIDs node) err of
        None \<Rightarrow> None
      | Some (e1, ev1) \<Rightarrow>
          (case evict_nodes devs ns e1 of
             None \<Rightarrow> None
           | Some (e2, ev2) \<Rightarrow> Some (e2, ev1 @ RemoveFunction (name node) # ev2)))"

definition removeNetwork ::
  "HostManager \<Rightarrow> string \<Rightarrow> (Error \<times> HostManager \<times> Event list) option" where
  "removeNetwork s networkName =
     (case map_of (networks s) networkName of
        None \<Rightarrow> Some (None, s, [])
      | Some nd \<Rightarrow>
          if refcount nd \<noteq> 0
          then Some (Some (MAKE_ERR RUNTIME_NET_BUSY
                      (''Cannot remove the network '' @ networkName
                         @ '', as there are still outstanding runs'')), s, [])
          else (case evict_nodes (devices s) (nodes (dag nd)) None of
                  None \<Rightarrow> None
                | Some (err, ev) \<Rightarrow>
                    Some (err, s\<lparr>networks := AList.delete networkName (networks s)\<rparr>, ev)))"

definition networkAdded :: "HostManager \<Rightarrow> string \<Rightarrow> bool" where
  "networkAdded s networkName \<longleftrightarrow> map_of (networks s) networkName \<noteq> None"

definition getNetworkDAG :: "HostManager \<Rightarrow> string \<Rightarrow> GlowErr + DAG" where
  "getNetworkDAG s network =
     (case map_of (networks s) network of
        None \<Rightarrow> Inl (MAKE_ERR RUNTIME_ERROR ''Network not found.'')
      | Some nd \<Rightarrow> Inr (dag nd))"

subsection \<open>\<open>runNetwork\<close>\<close>

text \<open>
  The collaborators that the orchestrator calls and that are not among the sources are
  parameters of the model. \<open>executor_result\<close> is the error with which the Executor
  completes a run; the others are what \<open>addNetwork\<close> calls: the command line option
  \<open>load-backend-specific-opts\<close> and the reader of its file, the optimizer, the
  Partitioner, the Provisioner, the factory of devices with the name of the profiling
  backend, and the error that the macro \<open>RETURN_ERR_IF_NOT\<close> makes of a message. A
  function of a module is known by its name.
\<close>

datatype QuantizationMode = NoQuantization | Quantize | Profile

record CompilationContext =
  quantMode :: QuantizationMode
  backendSpecificOpts :: "(string \<times> string) list"

record Env =
  executor_result :: "RunIdentifierTy \<Rightarrow> Error"
  loadBackendSpecificOptionsOpt :: string
  deserializeStrStrMapFromYaml :: "string \<Rightarrow> (string \<times> string) list"
  optimizeFunctionBeforeLowering :: "string \<Rightarrow> CompilationContext \<Rightarrow> Error"
  partitioner_partition ::
    "Module \<Rightarrow> DeviceInfo list \<Rightarrow> bool \<Rightarrow> CompilationContext \<Rightarrow> GlowErr + DAG list"
  provisioner_provision ::
    "DeviceManager list \<Rightarrow> DAG list \<Rightarrow> Module \<Rightarrow> CompilationContext \<Rightarrow> Error"
  createDeviceManager :: "string \<Rightarrow> string \<Rightarrow> DeviceManager"
  profilingBackend :: string
  return_err_if_not :: "string \<Rightarrow> GlowErr"

text \<open>
  \<open>it->second.refcount++\<close> and \<open>--\<close> on the entry of a name, when the registry has one.
\<close>

definition update_refcount :: "string \<Rightarrow> (size_t \<Rightarrow> size_t) \<Rightarrow> HostManager \<Rightarrow> HostManager" where
  "update_refcount nm f s =
     (case map_of (networks s) nm of
        None \<Rightarrow> s
      | Some nd \<Rightarrow> s\<lparr>networks := AList.update nm (nd\<lparr>refcount := f (refcount nd)\<rparr>) (networks s)\<rparr>)"

text \<open>
  The completion callback that \<open>runNetwork\<close> hands to the Executor (the lambda of lines
  315 to 329), a closure over the network name and the caller's callback:
  \<^verbatim>\<open>
    { lock; auto it = networks_.find(name);
      if (it != networks_.end()) { it->second.refcount--; } }
    callback(runID, std::move(err), std::move(context));
    --activeRequestCount_;
  \<close>
\<close>

definition runNetwork_callback ::
  "Completion \<Rightarrow> HostManager \<Rightarrow> RunIdentifierTy \<Rightarrow> Error \<Rightarrow> ExecutionContext
     \<Rightarrow> HostManager \<times> Event list" where
  "runNetwork_callback cl s runID err context =
     (let s1 = update_refcount (fst cl) (\<lambda>r. r - 1) s;
          ev = CallbackInvoked (snd cl) runID err context s1;
          s2 = s1\<lparr>activeRequestCount := activeRequestCount s1 - 1\<rparr>
      in (s2, [ev]))"

text \<open>
  Modelled from the spec: \<open>ThreadPoolExecutor::run\<close> is not among the sources. By the
  spec it returns once the run is scheduled, and the completion callback is invoked
  exactly once per run; an Executor that was shut down accepts no new scheduling, so it
  completes the run at once with the error it has for it.
\<close>

definition Executor_run ::
  "Env \<Rightarrow> HostManager \<Rightarrow> DAGNode \<Rightarrow> ExecutionContext \<Rightarrow> RunIdentifierTy \<Rightarrow> Completion
     \<Rightarrow> HostManager \<times> Event list" where
  "Executor_run env s rootNode context runId cl =
     (if shuttingDown (executor s)
      then (let (s', ev) = runNetwork_callback cl s runId (executor_result env runId) context
            in (s', ExecutorRun (name rootNode) context runId cl # ev))
      else (s\<lparr>executor := (executor s)\<lparr>inflight := inflight (executor s) @ [(runId, context, cl)]\<rparr>\<rparr>,
            [ExecutorRun (name rootNode) context runId cl]))"

text \<open>
  Modelled from the spec: \<open>ThreadPoolExecutor::shutdown\<close> is not among the sources. By the
  spec it stops accepting new scheduling and blocks until the work in flight has drained:
  every run still in flight completes, each through its completion callback. The model
  completes them in the order in which they were scheduled.
\<close>

fun Executor_drain ::
  "Env \<Rightarrow> (RunIdentifierTy \<times> ExecutionContext \<times> Completion) list \<Rightarrow> HostManager
     \<Rightarrow> HostManager \<times> Event list" where
  "Executor_drain env [] s = (s, [])"
| "Executor_drain env ((runId, context, cl) # ps) s =
     (let s0 = s\<lparr>executor := (executor s)\<lparr>inflight := ps\<rparr>\<rparr>;
          (s1, ev1) = runNetwork_callback cl s0 runId (executor_result env runId) context;
          (s2, ev2) = Executor_drain env ps s1
      in (s2, ev1 @ ev2))"

definition Executor_shutdown :: "Env \<Rightarrow> HostManager \<Rightarrow> HostManager \<times> Event list" where
  "Executor_shutdown env s =
     (let s0 = s\<lparr>executor := (executor s)\<lparr>shuttingDown := True\<rparr>\<rparr>;
          (s1, ev) = Executor_drain env (inflight (executor s0)) s0
      in (s1, ExecutorShutdown # ev))"

text \<open>
  \<open>runNetwork\<close> (lines 270 to 331). The \<open>DCHECK\<close> on the callback and the trace events
  have no effect on the orchestrator. The result is the Run Identifier returned, the state
  on return and the events in between.
\<close>

definition runNetwork ::
  "Env \<Rightarrow> HostManager \<Rightarrow> string \<Rightarrow> ExecutionContext \<Rightarrow> ResultCBTy
     \<Rightarrow> RunIdentifierTy \<times> HostManager \<times> Event list" where
  "runNetwork env s networkName context callback =
     (let currentRun = totalRequestCount s;
          s1 = s\<lparr>totalRequestCount := totalRequestCount s + 1\<rparr>
      in case map_of (networks s1) networkName of
           None \<Rightarrow>
             (currentRun, s1,
              [CallbackInvoked callback currentRun
                 (Some (MAKE_ERR RUNTIME_NET_NOT_FOUND (''Function '' @ networkName @ '' not found'')))
                 context s1])
         | Some network \<Rightarrow>
             (let s2 = update_refcount networkName (\<lambda>r. r + 1) s1;
                  activeRequestCount' = activeRequestCount s2;
                  s3 = s2\<lparr>activeRequestCount := activeRequestCount s2 + 1\<rparr>
              in if activeRequestCount' \<ge> maxActiveRequests (config s3)
                 then (let s4 = s3\<lparr>activeRequestCount := activeRequestCount s3 - 1\<rparr>;
                           s5 = update_refcount networkName (\<lambda>r. r - 1) s4
                       in (currentRun, s5,
                           [CallbackInvoked callback currentRun
                              (Some (MAKE_ERR RUNTIME_REQUEST_REFUSED
                                 (''The number of allowed requests has been exceeded. active requests: ''
                                    @ to_string (unat activeRequestCount')
                                    @ '' allowed requests: ''
                                    @ to_string (unat (maxActiveRequests (config s3))))))
                              context s5]))
                 else (let (s6, ev) = Executor_run env s3 (root (dag network)) context currentRun
                                        (networkName, callback)
                       in (currentRun, s6, ev))))"

subsection \<open>\<open>addNetwork\<close>\<close>

text \<open>The first loop of \<open>addNetwork\<close>: the first function of the module whose name is registered.\<close>

fun find_registered :: "(string \<times> NetworkData) list \<Rightarrow> string list \<Rightarrow> string option" where
  "find_registered nets [] = None"
| "find_registered nets (F # Fs) =
     (if map_of nets F \<noteq> None then Some F else find_registered nets Fs)"

text \<open>The \<open>DeviceInfo\<close> of every device, refreshed from the device.\<close>

definition collect_deviceInfo :: "DeviceManager list \<Rightarrow> DeviceInfo list" where
  "collect_deviceInfo devs =
     map (\<lambda>device. (getDeviceInfo device)
            \<lparr>availableMemory := getAvailableMemory device,
             backendName := getBackendName device,
             nonSupportedNodes := getParamByName device ''nonSupportedNodes'',
             supportedNodes := getParamByName device ''supportedNodes''\<rparr>) devs"

text \<open>\<open>RETURN_IF_ERR(optimizeFunctionBeforeLowering(F, cctx))\<close> for every function.\<close>

fun optimize_functions :: "Env \<Rightarrow> string list \<Rightarrow> CompilationContext \<Rightarrow> Error" where
  "optimize_functions env [] cctx = None"
| "optimize_functions env (F # Fs) cctx =
     (case optimizeFunctionBeforeLowering env F cctx of
        Some e \<Rightarrow> Some e
      | None \<Rightarrow> optimize_functions env Fs cctx)"

text \<open>
  The profiling branch replaces each device by one of the profiling backend, in order,
  and returns at the first \<open>init\<close> that fails, the devices before it already replaced.
\<close>

fun profiling_devices :: "Env \<Rightarrow> DeviceManager list \<Rightarrow> Error \<times> DeviceManager list" where
  "profiling_devices env [] = (None, [])"
| "profiling_devices env (d # ds) =
     (let d' = createDeviceManager env (profilingBackend env) (deviceConfigName d)
      in case init d' of
           Some e \<Rightarrow> (Some e, d' # ds)
         | None \<Rightarrow> (let (r, ds') = profiling_devices env ds in (r, d' # ds')))"

text \<open>
  The last loop: \<open>networks_[(node.root)->name]\<close> is the entry of that name, a new one
  (with no run counted) when the registry has none; its DAG and module are overwritten.
\<close>

fun insert_networks ::
  "Module \<Rightarrow> DAG list \<Rightarrow> (string \<times> NetworkData) list \<Rightarrow> (string \<times> NetworkData) list" where
  "insert_networks sharedModule [] nets = nets"
| "insert_networks sharedModule (node # nodeList) nets =
     insert_networks sharedModule nodeList
       (AList.update (name (root node))
          \<lparr>dag = node, module = sharedModule,
           refcount = (case map_of nets (name (root node)) of None \<Rightarrow> 0 | Some nd \<Rightarrow> refcount nd)\<rparr>
          nets)"

text \<open>
  \<open>addNetwork\<close> (lines 95 to 174). The result is the error returned, the state on return,
  the compilation context (which the caller passed by reference) and the events. In the
  profiling branch \<open>executor_.reset\<close> destroys the Executor in use, which by its contract
  completes the runs it still holds, and installs a new one.
\<close>

definition addNetwork ::
  "Env \<Rightarrow> HostManager \<Rightarrow> Module \<Rightarrow> CompilationContext \<Rightarrow> bool
     \<Rightarrow> Error \<times> HostManager \<times> CompilationContext \<times> Event list" where
  "addNetwork env s m cctx saturateHost =
     (case find_registered (networks s) (getFunctions m) of
        Some F \<Rightarrow>
          (Some (MAKE_ERR RUNTIME_ERROR
                  (''Failed to add network: already have a function called '' @ F)),
           s, cctx, [])
      | None \<Rightarrow>
          (let cctx1 = (if loadBackendSpecificOptionsOpt env \<noteq> []
                        then cctx\<lparr>backendSpecificOpts :=
                               deserializeStrStrMapFromYaml env (loadBackendSpecificOptionsOpt env)\<rparr>
                        else cctx);
               deviceInfo = collect_deviceInfo (devices s)
           in case optimize_functions env (getFunctions m) cctx1 of
                Some e \<Rightarrow> (Some e, s, cctx1, [])
              | None \<Rightarrow>
                  (case partitioner_partition env m deviceInfo saturateHost cctx1 of
                     Inl e \<Rightarrow> (Some e, s, cctx1, [])
                   | Inr nodeList \<Rightarrow>
                       (let (perr, s1, ev1) =
                              (if quantMode cctx1 = Profile
                               then (if length (networks s) = 0
                                     then (case profiling_devices env (devices s) of
                                             (Some e, devs) \<Rightarrow> (Some e, s\<lparr>devices := devs\<rparr>, [])
                                           | (None, devs) \<Rightarrow>
                                               (let (s', ev) = Executor_shutdown env (s\<lparr>devices := devs\<rparr>)
                                                in (None,
                                                    s'\<lparr>executor := \<lparr>inflight = [], shuttingDown = False\<rparr>\<rparr>,
                                                    ev)))
                                     else (Some (return_err_if_not env
                                             (''For quantization profiling flow, there can't be other ''
                                                @ ''registered networks before this one'')), s, []))
                               else (None, s, []))
                        in case perr of
                             Some e \<Rightarrow> (Some e, s1, cctx1, ev1)
                           | None \<Rightarrow>
                               (case provisioner_provision env (devices s1) nodeList m cctx1 of
                                  Some e \<Rightarrow> (Some e, s1, cctx1, ev1)
                                | None \<Rightarrow>
                                    (let sharedModule = m\<lparr>stripped := True\<rparr>
                                     in (None,
                                         s1\<lparr>networks := insert_networks sharedModule nodeList (networks s1)\<rparr>,
                                         cctx1, ev1)))))))"

subsection \<open>\<open>clearHost\<close>\<close>

text \<open>
  The loop of \<open>clearHost\<close>:
  \<^verbatim>\<open>
    while (networks_.size() != 0) {
      RETURN_IF_ERR(removeNetwork(networks_.begin()->first));
    }
  \<close>
  It returns the first error a removal returns, and success once the registry is empty.
\<close>

function clearHost_loop :: "HostManager \<Rightarrow> (Error \<times> HostManager \<times> Event list) option" where
  "clearHost_loop s =
     (if length (networks s) \<noteq> 0
      then (case removeNetwork s (fst (hd (networks s))) of
              None \<Rightarrow> None
            | Some (err, s', ev) \<Rightarrow>
                (case err of
                   Some e \<Rightarrow> Some (Some e, s', ev)
                 | None \<Rightarrow>
                     (case clearHost_loop s' of
                        None \<Rightarrow> None
                      | Some (r, s'', ev') \<Rightarrow> Some (r, s'', ev @ ev'))))
      else Some (None, s, []))"
  by pat_completeness auto
termination
proof (relation "measure (\<lambda>s. length (networks s))")
  show "wf (measure (\<lambda>s. length (networks s)))" by simp
next
  fix s :: HostManager and x2 err y s' ev
  assume nonempty: "length (networks s) \<noteq> 0"
    and "removeNetwork s (fst (hd (networks s))) = Some x2"
    and "(err, y) = x2" and "(s', ev) = y" and "err = None"
  then have removed: "removeNetwork s (fst (hd (networks s))) = Some (None, s', ev)"
    by auto
  let ?k = "fst (hd (networks s))"
  from nonempty have "hd (networks s) \<in> set (networks s)"
    by simp
  then have entry: "(?k, snd (hd (networks s))) \<in> set (networks s)"
    by simp
  then have "map_of (networks s) ?k \<noteq> None"
    by (metis map_of_eq_None_iff fst_conv image_eqI)
  with removed have "networks s' = AList.delete ?k (networks s)"
    by (auto simp: removeNetwork_def split: option.splits if_splits)
  moreover from entry have "length (AList.delete ?k (networks s)) < length (networks s)"
    unfolding AList.delete_eq by (rule length_filter_less) (simp add: split_beta)
  ultimately show "(s', s) \<in> measure (\<lambda>s. length (networks s))"
    by simp
qed

declare clearHost_loop.simps [simp del]

text \<open>The last loop of \<open>clearHost\<close>: every device is stopped, the first error kept.\<close>

fun stop_devices :: "DeviceManager list \<Rightarrow> DeviceIDTy \<Rightarrow> Error \<Rightarrow> Error \<times> Event list" where
  "stop_devices [] i err = (err, [])"
| "stop_devices (d # ds) i err =
     (let (e, ev) = stop_devices ds (Suc i) (OneErrOnly_set err (stop d)) in (e, Stop i # ev))"

text \<open>
  \<open>clearHost\<close> (lines 221 to 242). The \<open>DCHECK_EQ\<close> on the active request count is
  compiled out of a release build and stops a debug build; the model is the release build,
  whose returns include those of the debug build.
\<close>

definition clearHost :: "Env \<Rightarrow> HostManager \<Rightarrow> (Error \<times> HostManager \<times> Event list) option" where
  "clearHost env s =
     (let (s1, ev1) = Executor_shutdown env s
      in case clearHost_loop s1 of
           None \<Rightarrow> None
         | Some (Some e, s2, ev2) \<Rightarrow> Some (Some e, s2, ev1 @ ev2)
         | Some (None, s2, ev2) \<Rightarrow>
             (let (err, ev3) = stop_devices (devices s2) 0 None
              in Some (err, s2, ev1 @ ev2 @ ev3)))"

section \<open>A small host, for concrete instances\<close>

text \<open>
  One CPU device, one registered network \<open>net\<close> of a single partition on that device,
  at most one active request. \<open>host0 r a\<close> has \<open>r\<close> runs counted on the network and
  \<open>a\<close> active requests.
\<close>

definition dev0 :: DeviceManager where
  "dev0 = \<lparr>deviceConfigName = ''config0'', deviceBackend = ''CPU'', init = None, stop = None,
            evictNetwork = (\<lambda>n. None),
            getDeviceInfo = \<lparr>availableMemory = 0, backendName = ''CPU'',
                              nonSupportedNodes = [], supportedNodes = []\<rparr>,
            getAvailableMemory = 1000, getBackendName = ''CPU'', getParamByName = (\<lambda>k. [])\<rparr>"

definition dag0 :: "string \<Rightarrow> DAG" where
  "dag0 n = \<lparr>root = \<lparr>name = n, deviceIDs = []\<rparr>,
             nodes = [\<lparr>name = n @ ''_part1'', deviceIDs = [0]\<rparr>]\<rparr>"

definition net0 :: "size_t \<Rightarrow> NetworkData" where
  "net0 r = \<lparr>dag = dag0 ''net'', module = \<lparr>getFunctions = [''net''], stripped = True\<rparr>,
             refcount = r\<rparr>"

definition host0 :: "size_t \<Rightarrow> size_t \<Rightarrow> HostManager" where
  "host0 r a = \<lparr>config = \<lparr>executorThreads = 3, maxActiveRequests = 1\<rparr>,
     networks = [(''net'', net0 r)], devices = [dev0],
     executor = \<lparr>inflight = [], shuttingDown = False\<rparr>,
     totalRequestCount = 5, activeRequestCount = a\<rparr>"

definition env0 :: Env where
  "env0 = \<lparr>executor_result = (\<lambda>r. None), loadBackendSpecificOptionsOpt = [],
     deserializeStrStrMapFromYaml = (\<lambda>x. []), optimizeFunctionBeforeLowering = (\<lambda>F c. None),
     partitioner_partition = (\<lambda>m d b c. Inr (map dag0 (getFunctions m))),
     provisioner_provision = (\<lambda>d l m c. None),
     createDeviceManager = (\<lambda>b n. dev0), profilingBackend = ''CPU'',
     return_err_if_not = (\<lambda>m. MAKE_ERR RUNTIME_ERROR m)\<rparr>"

definition module0 :: "string list \<Rightarrow> Module" where
  "module0 Fs = \<lparr>getFunctions = Fs, stripped = False\<rparr>"

definition cctx0 :: CompilationContext where
  "cctx0 = \<lparr>quantMode = NoQuantization, backendSpecificOpts = []\<rparr>"

definition env_provision_fails :: Env where
  "env_provision_fails =
     env0\<lparr>provisioner_provision := (\<lambda>d l m c. Some (MAKE_ERR RUNTIME_ERROR ''out of device memory''))\<rparr>"

section \<open>Sequences of operations\<close>

text \<open>
  Modelled from the spec: the Executor completes a run it holds at a time of its own
  choosing, through the completion callback it was given. \<open>Executor_complete env s k\<close>
  completes the run at position \<open>k\<close> of those in flight.
\<close>

definition Executor_complete :: "Env \<Rightarrow> HostManager \<Rightarrow> nat \<Rightarrow> HostManager \<times> Event list" where
  "Executor_complete env s k =
     (if k < length (inflight (executor s))
      then (case inflight (executor s) ! k of
              (runId, context, cl) \<Rightarrow>
                runNetwork_callback cl
                  (s\<lparr>executor := (executor s)
                       \<lparr>inflight := take k (inflight (executor s)) @ drop (Suc k) (inflight (executor s))\<rparr>\<rparr>)
                  runId (executor_result env runId) context)
      else (s, []))"

text \<open>
  The operations on one orchestrator, in the order in which they take effect, with the
  completions of the Executor among them. \<open>run_operations\<close> gives the final state, the
  events and, for each \<open>runNetwork\<close> call in call order, the callback it was given, the
  Run Identifier it returned and the context it was given. It is \<open>None\<close> when a removal
  goes through a device id that \<open>devices_\<close> does not hold.
\<close>

datatype Operation =
  RunNetwork string ExecutionContext ResultCBTy
  | RemoveNetwork string
  | AddNetwork Module CompilationContext bool
  | ExecutorCompletes nat
  | ClearHost

type_synonym Call = "ResultCBTy \<times> RunIdentifierTy \<times> ExecutionContext"

fun apply_operation ::
  "Env \<Rightarrow> HostManager \<Rightarrow> Operation \<Rightarrow> (HostManager \<times> Event list \<times> Call list) option" where
  "apply_operation env s (RunNetwork networkName context callback) =
     (case runNetwork env s networkName context callback of
        (runId, s', ev) \<Rightarrow> Some (s', ev, [(callback, runId, context)]))"
| "apply_operation env s (RemoveNetwork networkName) =
     (case removeNetwork s networkName of
        None \<Rightarrow> None
      | Some (err, s', ev) \<Rightarrow> Some (s', ev, []))"
| "apply_operation env s (AddNetwork m cctx saturateHost) =
     (case addNetwork env s m cctx saturateHost of
        (err, s', cctx', ev) \<Rightarrow> Some (s', ev, []))"
| "apply_operation env s (ExecutorCompletes k) =
     (case Executor_complete env s k of (s', ev) \<Rightarrow> Some (s', ev, []))"
| "apply_operation env s ClearHost =
     (case clearHost env s of
        None \<Rightarrow> None
      | Some (err, s', ev) \<Rightarrow> Some (s', ev, []))"

fun run_operations ::
  "Env \<Rightarrow> HostManager \<Rightarrow> Operation list \<Rightarrow> (HostManager \<times> Event list \<times> Call list) option" where
  "run_operations env s [] = Some (s, [], [])"
| "run_operations env s (operation # ops) =
     (case apply_operation env s operation of
        None \<Rightarrow> None
      | Some (s1, ev1, calls1) \<Rightarrow>
          (case run_operations env s1 ops of
             None \<Rightarrow> None
           | Some (s2, ev2, calls2) \<Rightarrow> Some (s2, ev1 @ ev2, calls1 @ calls2)))"

fun is_RunNetwork :: "Operation \<Rightarrow> bool" where
  "is_RunNetwork (RunNetwork networkName context callback) = True"
| "is_RunNetwork operation = False"

text \<open>
  The calls of callbacks in a list of events, and the calls that the Executor still owes:
  one for each run in flight.
\<close>

fun callbacks :: "Event list \<Rightarrow> Call list" where
  "callbacks [] = []"
| "callbacks (CallbackInvoked callback runId err context snap # tr) =
     (callback, runId, context) # callbacks tr"
| "callbacks (e # tr) = callbacks tr"

definition owed :: "HostManager \<Rightarrow> Call list" where
  "owed s = map (\<lambda>(runId, context, cl). (snd cl, runId, context)) (inflight (executor s))"

text \<open>
  A sequence on the small host: a run that is admitted, a run of an unknown name, a run
  that is refused, the completion of the first run, another run, and \<open>clearHost\<close>.
\<close>

definition ops0 :: "Operation list" where
  "ops0 = [RunNetwork ''net'' 1 10, RunNetwork ''missing'' 2 11, RunNetwork ''net'' 3 12,
           ExecutorCompletes 0, RunNetwork ''net'' 4 13, ClearHost]"

definition calls0 :: "Call list" where
  "calls0 = [(10, 5, 1), (11, 6, 2), (12, 7, 3), (13, 8, 4)]"

section \<open>\<open>clearHost\<close> and the registry\<close>

text \<open>
  The runs on a network that the Executor holds, and the registry in which every
  reference count is the number of such runs: \<open>runNetwork\<close> counts a run before it
  forwards it, and the completion callback discounts it.
\<close>

definition runs_in_flight :: "HostManager \<Rightarrow> string \<Rightarrow> nat" where
  "runs_in_flight s n =
     length (filter (\<lambda>(runId, context, cl). fst cl = n) (inflight (executor s)))"

definition refcounts_consistent :: "HostManager \<Rightarrow> bool" where
  "refcounts_consistent s =
     list_all (\<lambda>n. case map_of (networks s) n of
                      None \<Rightarrow> True
                    | Some nd \<Rightarrow> unat (refcount nd) = runs_in_flight s n)
       (map fst (networks s))"

text \<open>
  Every device of every partition of every registered network is one of \<open>devices_\<close> and
  evicts the partition without error.
\<close>

definition evictions_succeed :: "HostManager \<Rightarrow> bool" where
  "evictions_succeed s =
     list_all (\<lambda>(n, nd).
        list_all (\<lambda>node.
           list_all (\<lambda>device. device < length (devices s)
                        \<and> evictNetwork (devices s ! device) (name node) = None)
             (deviceIDs node))
          (nodes (dag nd)))
       (networks s)"

text \<open>The devices stopped in a list of events, and the first error of a list.\<close>

fun stopped :: "Event list \<Rightarrow> DeviceIDTy list" where
  "stopped [] = []"
| "stopped (Stop i # tr) = i # stopped tr"
| "stopped (e # tr) = stopped tr"

fun first_error :: "Error list \<Rightarrow> Error" where
  "first_error [] = None"
| "first_error (e # es) = (case e of Some x \<Rightarrow> Some x | None \<Rightarrow> first_error es)"

text \<open>
  A list of events that are all calls of callbacks, each made while the registry holds
  the given names.
\<close>

fun drained_with_registry :: "string list \<Rightarrow> Event list \<Rightarrow> bool" where
  "drained_with_registry names [] = True"
| "drained_with_registry names (CallbackInvoked callback runId err context snap # tr) =
     (map fst (networks snap) = names \<and> drained_with_registry names tr)"
| "drained_with_registry names (e # tr) = False"

text \<open>The DAG registered under each name.\<close>

definition dags :: "HostManager \<Rightarrow> (string \<times> DAG) list" where
  "dags s = map (\<lambda>(n, x). (n, dag x)) (networks s)"

text \<open>
  The small host with one run on \<open>net\<close> in flight, and a host with two networks \<open>a\<close> and
  \<open>b\<close> whose device fails to evict the partition of \<open>a\<close>.
\<close>

definition host_inflight :: HostManager where
  "host_inflight =
     (host0 1 1)\<lparr>totalRequestCount := 6,
                  executor := \<lparr>inflight = [(5, 3, (''net'', 7))], shuttingDown = False\<rparr>\<rparr>"

definition dev_evict_fails :: DeviceManager where
  "dev_evict_fails =
     dev0\<lparr>evictNetwork := (\<lambda>n. if n = ''a_part1''
                                then Some (MAKE_ERR RUNTIME_ERROR ''eviction failed'')
                                else None)\<rparr>"

definition net_ab :: "string \<Rightarrow> NetworkData" where
  "net_ab n = \<lparr>dag = dag0 n, module = \<lparr>getFunctions = [''a'', ''b''], stripped = True\<rparr>,
               refcount = 0\<rparr>"

definition host_ab :: HostManager where
  "host_ab = \<lparr>config = \<lparr>executorThreads = 3, maxActiveRequests = 1\<rparr>,
     networks = [(''a'', net_ab ''a''), (''b'', net_ab ''b'')], devices = [dev_evict_fails],
     executor = \<lparr>inflight = [], shuttingDown = False\<rparr>,
     totalRequestCount = 0, activeRequestCount = 0\<rparr>"

section \<open>Concurrent \<open>runNetwork\<close> calls\<close>

text \<open>
  Callers run \<open>runNetwork\<close> concurrently. The request counters and the reference counts
  are atomic and the registry is read and written under \<open>networkLock_\<close>, so an execution
  is an interleaving of the atomic steps of the calls, each on the shared orchestrator.
  A call is at one of the following points; the values it holds in local variables are
  the arguments of the point.
  \<^item> \<open>NotCalled\<close>: before \<open>totalRequestCount_++\<close> (line 278);
  \<^item> \<open>AtLookup\<close>: before the locked lookup and \<open>refcount++\<close> (lines 281 to 288);
  \<^item> \<open>AtNotFound\<close>: before the callback of line 291;
  \<^item> \<open>AtAdmission\<close>: before \<open>activeRequestCount_++\<close> (line 299);
  \<^item> \<open>AtRefuseDecActive\<close>, \<open>AtRefuseDecRef\<close>, \<open>AtRefuseCallback\<close>: before lines 301, 302
    and 303;
  \<^item> \<open>AtForward\<close>: before \<open>executor_->run\<close> (line 313);
  \<^item> \<open>InExecutor\<close>: \<open>runNetwork\<close> has returned and the Executor holds the run;
  \<^item> \<open>AtCompletionDecRef\<close>, \<open>AtCompletionCallback\<close>, \<open>AtCompletionDecActive\<close>: in the
    completion callback, before lines 319 to 323, 327 and 328;
  \<^item> \<open>Finished\<close>: the callback was invoked and nothing is left to do.
\<close>

datatype Pc =
  NotCalled
  | AtLookup RunIdentifierTy
  | AtNotFound RunIdentifierTy
  | AtAdmission RunIdentifierTy
  | AtRefuseDecActive RunIdentifierTy size_t
  | AtRefuseDecRef RunIdentifierTy size_t
  | AtRefuseCallback RunIdentifierTy size_t
  | AtForward RunIdentifierTy
  | InExecutor RunIdentifierTy
  | AtCompletionDecRef RunIdentifierTy Error
  | AtCompletionCallback RunIdentifierTy Error
  | AtCompletionDecActive RunIdentifierTy Error
  | Finished RunIdentifierTy

type_synonym RunArgs = "string \<times> ExecutionContext \<times> ResultCBTy"

text \<open>
  One atomic step of a call. At \<open>AtForward\<close> the root is read from the registry, which
  holds the name as long as only \<open>runNetwork\<close> calls run; an Executor that was shut down
  completes the run on the spot, so the call goes on with the completion callback.
  Modelled from the spec: the Executor, which is not among the sources, invokes the
  completion callback of a run it holds exactly once, at a time of its own choosing; that
  is the step at \<open>InExecutor\<close>, which any schedule may place anywhere after the run was
  forwarded.
\<close>

fun call_step :: "Env \<Rightarrow> RunArgs \<Rightarrow> Pc \<Rightarrow> HostManager \<Rightarrow> Pc \<times> HostManager \<times> Event list" where
  "call_step env (networkName, context, callback) NotCalled s =
     (AtLookup (totalRequestCount s), s\<lparr>totalRequestCount := totalRequestCount s + 1\<rparr>, [])"
| "call_step env (networkName, context, callback) (AtLookup currentRun) s =
     (case map_of (networks s) networkName of
        None \<Rightarrow> (AtNotFound currentRun, s, [])
      | Some network \<Rightarrow> (AtAdmission currentRun, update_refcount networkName (\<lambda>r. r + 1) s, []))"
| "call_step env (networkName, context, callback) (AtNotFound currentRun) s =
     (Finished currentRun, s,
      [CallbackInvoked callback currentRun
         (Some (MAKE_ERR RUNTIME_NET_NOT_FOUND (''Function '' @ networkName @ '' not found'')))
         context s])"
| "call_step env (networkName, context, callback) (AtAdmission currentRun) s =
     (let activeRequestCount' = activeRequestCount s;
          s' = s\<lparr>activeRequestCount := activeRequestCount s + 1\<rparr>
      in if activeRequestCount' \<ge> maxActiveRequests (config s')
         then (AtRefuseDecActive currentRun activeRequestCount', s', [])
         else (AtForward currentRun, s', []))"
| "call_step env (networkName, context, callback) (AtRefuseDecActive currentRun old) s =
     (AtRefuseDecRef currentRun old, s\<lparr>activeRequestCount := activeRequestCount s - 1\<rparr>, [])"
| "call_step env (networkName, context, callback) (AtRefuseDecRef currentRun old) s =
     (AtRefuseCallback currentRun old, update_refcount networkName (\<lambda>r. r - 1) s, [])"
| "call_step env (networkName, context, callback) (AtRefuseCallback currentRun old) s =
     (Finished currentRun, s,
      [CallbackInvoked callback currentRun
         (Some (MAKE_ERR RUNTIME_REQUEST_REFUSED
            (''The number of allowed requests has been exceeded. active requests: ''
               @ to_string (unat old) @ '' allowed requests: ''
               @ to_string (unat (maxActiveRequests (config s))))))
         context s])"
| "call_step env (networkName, context, callback) (AtForward currentRun) s =
     (let rootName = (case map_of (networks s) networkName of
                        None \<Rightarrow> [] | Some network \<Rightarrow> name (root (dag network)));
          ev = [ExecutorRun rootName context currentRun (networkName, callback)]
      in if shuttingDown (executor s)
         then (AtCompletionDecRef currentRun (executor_result env currentRun), s, ev)
         else (InExecutor currentRun,
               s\<lparr>executor := (executor s)
                    \<lparr>inflight := inflight (executor s) @ [(currentRun, context, (networkName, callback))]\<rparr>\<rparr>,
               ev))"
| "call_step env (networkName, context, callback) (InExecutor runID) s =
     (AtCompletionDecRef runID (executor_result env runID),
      s\<lparr>executor := (executor s)
           \<lparr>inflight := remove1 (runID, context, (networkName, callback)) (inflight (executor s))\<rparr>\<rparr>,
      [])"
| "call_step env (networkName, context, callback) (AtCompletionDecRef runID err) s =
     (AtCompletionCallback runID err, update_refcount networkName (\<lambda>r. r - 1) s, [])"
| "call_step env (networkName, context, callback) (AtCompletionCallback runID err) s =
     (AtCompletionDecActive runID err, s, [CallbackInvoked callback runID err context s])"
| "call_step env (networkName, context, callback) (AtCompletionDecActive runID err) s =
     (Finished runID, s\<lparr>activeRequestCount := activeRequestCount s - 1\<rparr>, [])"
| "call_step env (networkName, context, callback) (Finished runID) s = (Finished runID, s, [])"

text \<open>
  An execution is given by its schedule: the list of the calls that take a step, in
  order. Every interleaving of the calls is the run of a schedule. Each event of the
  execution is recorded with the call whose step it is.
\<close>

fun run_schedule ::
  "Env \<Rightarrow> RunArgs list \<Rightarrow> nat list \<Rightarrow> HostManager \<times> Pc list \<times> (nat \<times> Event) list
     \<Rightarrow> HostManager \<times> Pc list \<times> (nat \<times> Event) list" where
  "run_schedule env args [] st = st"
| "run_schedule env args (i # sched) (s, pcs, tr) =
     (if i < length pcs \<and> i < length args
      then (case call_step env (args ! i) (pcs ! i) s of
              (pc', s', ev) \<Rightarrow>
                run_schedule env args sched (s', pcs[i := pc'], tr @ map (Pair i) ev))
      else run_schedule env args sched (s, pcs, tr))"

text \<open>The events of call \<open>i\<close> in the events of an execution, in order.\<close>

definition events_of :: "nat \<Rightarrow> (nat \<times> Event) list \<Rightarrow> Event list" where
  "events_of i tr = map snd (filter (\<lambda>e. fst e = i) tr)"

text \<open>
  A call is counted in \<open>activeRequestCount_\<close> from its increment to its decrement; it is
  admitted, past admission and not yet completed, from the increment that found the count
  below the maximum to the decrement at the end of the completion callback; it is being
  refused from the increment that found the count at the maximum to its callback.
\<close>

fun counted :: "Pc \<Rightarrow> bool" where
  "counted (AtRefuseDecActive currentRun old) = True"
| "counted (AtForward currentRun) = True"
| "counted (InExecutor runID) = True"
| "counted (AtCompletionDecRef runID err) = True"
| "counted (AtCompletionCallback runID err) = True"
| "counted (AtCompletionDecActive runID err) = True"
| "counted pc = False"

fun admitted :: "Pc \<Rightarrow> bool" where
  "admitted (AtForward currentRun) = True"
| "admitted (InExecutor runID) = True"
| "admitted (AtCompletionDecRef runID err) = True"
| "admitted (AtCompletionCallback runID err) = True"
| "admitted (AtCompletionDecActive runID err) = True"
| "admitted pc = False"

fun refusing :: "Pc \<Rightarrow> bool" where
  "refusing (AtRefuseDecActive currentRun old) = True"
| "refusing (AtRefuseDecRef currentRun old) = True"
| "refusing (AtRefuseCallback currentRun old) = True"
| "refusing pc = False"

fun executor_runs :: "Event list \<Rightarrow> RunIdentifierTy list" where
  "executor_runs [] = []"
| "executor_runs (ExecutorRun rootName context runId cl # tr) = runId # executor_runs tr"
| "executor_runs (e # tr) = executor_runs tr"

fun is_Finished :: "Pc \<Rightarrow> bool" where
  "is_Finished (Finished runID) = True"
| "is_Finished pc = False"

text \<open>
  A call holds a reference on the entry of its network from the \<open>refcount++\<close> of its
  lookup to the \<open>refcount--\<close> of its refusal or of its completion callback.
  \<open>references pcs args n\<close> is the number of calls on network \<open>n\<close> that hold one.
\<close>

fun holds_reference :: "Pc \<Rightarrow> bool" where
  "holds_reference (AtAdmission currentRun) = True"
| "holds_reference (AtRefuseDecActive currentRun old) = True"
| "holds_reference (AtRefuseDecRef currentRun old) = True"
| "holds_reference (AtForward currentRun) = True"
| "holds_reference (InExecutor runID) = True"
| "holds_reference (AtCompletionDecRef runID err) = True"
| "holds_reference pc = False"

definition references :: "Pc list \<Rightarrow> RunArgs list \<Rightarrow> string \<Rightarrow> nat" where
  "references pcs args n =
     length (filter (\<lambda>(pc, a). fst a = n \<and> holds_reference pc) (zip pcs args))"

text \<open>
  The point of a call that read the active request count \<open>old\<close> at the maximum, after
  \<open>k\<close> further steps of its own: lines 301, 302, 303, and the end of the call.
\<close>

fun refusal_point :: "RunIdentifierTy \<Rightarrow> size_t \<Rightarrow> nat \<Rightarrow> Pc" where
  "refusal_point currentRun old 0 = AtRefuseDecActive currentRun old"
| "refusal_point currentRun old (Suc 0) = AtRefuseDecRef currentRun old"
| "refusal_point currentRun old (Suc (Suc 0)) = AtRefuseCallback currentRun old"
| "refusal_point currentRun old (Suc (Suc (Suc k))) = Finished currentRun"

text \<open>
  The invocations of callbacks in a list of events: the callback, the Run Identifier, the
  error and the context it was invoked with.
\<close>

fun invocations ::
  "Event list \<Rightarrow> (ResultCBTy \<times> RunIdentifierTy \<times> Error \<times> ExecutionContext) list" where
  "invocations [] = []"
| "invocations (CallbackInvoked callback runId err context snap # tr) =
     (callback, runId, err, context) # invocations tr"
| "invocations (e # tr) = invocations tr"

text \<open>A call has produced no event before its callback or its \<open>executor_->run\<close>.\<close>

fun before_events :: "Pc \<Rightarrow> bool" where
  "before_events (InExecutor runID) = False"
| "before_events (AtCompletionDecRef runID err) = False"
| "before_events (AtCompletionCallback runID err) = False"
| "before_events (AtCompletionDecActive runID err) = False"
| "before_events (Finished runID) = False"
| "before_events pc = True"

definition admission_invariant :: "HostManager \<Rightarrow> Pc list \<Rightarrow> bool" where
  "admission_invariant s pcs \<longleftrightarrow>
     unat (activeRequestCount s) = length (filter counted pcs)
     \<and> length (filter admitted pcs) \<le> unat (maxActiveRequests (config s))"

definition args0 :: "RunArgs list" where
  "args0 = [(''net'', 1, 10), (''net'', 2, 11)]"

text \<open>
  Two calls on the small host: after \<open>sched0\<close> the first call was admitted and is about
  to be forwarded, and the second is at its admission with the active request count at
  the maximum; it then takes its admission step and, in \<open>sched1\<close>, three more steps,
  while the first call is forwarded.
\<close>

definition sched0 :: "nat list" where
  "sched0 = [0, 0, 0, 1, 1]"

definition sched1 :: "nat list" where
  "sched1 = [0, 1, 1, 1]"

chapter \<open>The properties\<close>

section \<open>Properties of \<open>clip\<close>\<close>

lemma convert_id: "0 < width T \<Longrightarrow> in_range T v \<Longrightarrow> convert T v = v"
proof (cases "signedTy T")
  case True
  assume w: "0 < width T" and r: "in_range T v"
  have p: "(2::int) ^ width T = 2 * 2 ^ (width T - 1)"
    using w by (cases "width T") simp_all
  from r True have "0 \<le> v + 2 ^ (width T - 1)" "v + 2 ^ (width T - 1) < 2 ^ width T"
    by (simp_all add: in_range_def numeric_limits_min_def numeric_limits_max_def p)
  then have "(v + 2 ^ (width T - 1)) mod 2 ^ width T = v + 2 ^ (width T - 1)"
    by simp
  with True show ?thesis by (simp add: convert_def)
next
  case False
  assume r: "in_range T v"
  with False have "0 \<le> v" "v < 2 ^ width T"
    by (simp_all add: in_range_def numeric_limits_min_def numeric_limits_max_def)
  with False show ?thesis by (simp add: convert_def)
qed

lemma limits_ordered: "numeric_limits_min T \<le> numeric_limits_max T"
proof -
  have "(1::int) \<le> 2 ^ n" for n by simp
  then show ?thesis
    by (simp add: numeric_limits_min_def numeric_limits_max_def)
qed

lemma clip_fits:
  assumes lo: "numeric_limits_min SrcTy \<le> numeric_limits_min DestTy"
    and hi: "numeric_limits_max DestTy \<le> numeric_limits_max SrcTy"
    and ws: "0 < width SrcTy"
  shows "clip SrcTy DestTy inp =
           convert DestTy (max (numeric_limits_min DestTy) (min (numeric_limits_max DestTy) inp))"
proof -
  have "in_range SrcTy (numeric_limits_min DestTy)"
    using lo hi limits_ordered [of DestTy] by (simp add: in_range_def)
  moreover have "in_range SrcTy (numeric_limits_max DestTy)"
    using lo hi limits_ordered [of DestTy] by (simp add: in_range_def)
  ultimately show ?thesis
    using ws by (simp add: clip_def convert_id)
qed

lemma convert_in_range: "0 < width T \<Longrightarrow> in_range T (convert T v)"
proof (cases "signedTy T")
  case True
  assume w: "0 < width T"
  have p: "(2::int) ^ width T = 2 * 2 ^ (width T - 1)"
    using w by (cases "width T") simp_all
  have "0 \<le> (v + 2 ^ (width T - 1)) mod 2 ^ width T"
    and "(v + 2 ^ (width T - 1)) mod 2 ^ width T < 2 ^ width T"
    by simp_all
  with True show ?thesis
    by (simp add: in_range_def convert_def numeric_limits_min_def numeric_limits_max_def p)
next
  case False
  have "0 \<le> v mod 2 ^ width T" and "v mod 2 ^ width T < 2 ^ width T"
    by simp_all
  with False show ?thesis
    by (simp add: in_range_def convert_def numeric_limits_min_def numeric_limits_max_def)
qed

text \<open>
  What \<open>clip\<close> does. For every input the result lies within the limits of \<open>DestTy\<close>.
  When every value of \<open>DestTy\<close> is representable in \<open>SrcTy\<close> (as for
  \<open>clip<int32_t, int8_t>\<close> and for the one call in the header,
  \<open>clip<int32_t, DestTy>\<close> in \<open>quantize\<close>, with an 8, 16 or 32 bit quantized type),
  an input that already lies within the limits of \<open>DestTy\<close> is returned
  unchanged, and an input outside them is replaced by the nearer limit.
\<close>

theorem clip_range_identity:
  "(0 < width DestTy \<longrightarrow>
      numeric_limits_min DestTy \<le> clip SrcTy DestTy inp
      \<and> clip SrcTy DestTy inp \<le> numeric_limits_max DestTy)
   \<and> (numeric_limits_min SrcTy \<le> numeric_limits_min DestTy
        \<and> numeric_limits_max DestTy \<le> numeric_limits_max SrcTy
        \<and> 0 < width SrcTy \<and> 0 < width DestTy \<longrightarrow>
      (in_range DestTy inp \<longrightarrow> clip SrcTy DestTy inp = inp)
      \<and> (inp < numeric_limits_min DestTy \<longrightarrow> clip SrcTy DestTy inp = numeric_limits_min DestTy)
      \<and> (numeric_limits_max DestTy < inp \<longrightarrow> clip SrcTy DestTy inp = numeric_limits_max DestTy))"
proof (intro conjI impI)
  assume "0 < width DestTy"
  then have "in_range DestTy (clip SrcTy DestTy inp)"
    by (simp add: clip_def convert_in_range)
  then show "numeric_limits_min DestTy \<le> clip SrcTy DestTy inp"
    and "clip SrcTy DestTy inp \<le> numeric_limits_max DestTy"
    by (simp_all add: in_range_def)
next
  assume h: "numeric_limits_min SrcTy \<le> numeric_limits_min DestTy
        \<and> numeric_limits_max DestTy \<le> numeric_limits_max SrcTy
        \<and> 0 < width SrcTy \<and> 0 < width DestTy"
  let ?c = "max (numeric_limits_min DestTy) (min (numeric_limits_max DestTy) inp)"
  have r: "in_range DestTy ?c"
    using limits_ordered [of DestTy] by (simp add: in_range_def)
  have c: "clip SrcTy DestTy inp = ?c"
    using h r by (simp add: clip_fits convert_id)
  show "clip SrcTy DestTy inp = inp" if "in_range DestTy inp"
    using that c by (simp add: in_range_def)
  show "clip SrcTy DestTy inp = numeric_limits_min DestTy" if "inp < numeric_limits_min DestTy"
    using that c limits_ordered [of DestTy] by simp
  show "clip SrcTy DestTy inp = numeric_limits_max DestTy" if "numeric_limits_max DestTy < inp"
    using that c limits_ordered [of DestTy] by simp
qed

theorem clip_range_identity_witness:
  "0 < width uint32_t
   \<and> numeric_limits_min uint32_t \<le> clip int32_t uint32_t 5
   \<and> clip int32_t uint32_t 5 \<le> numeric_limits_max uint32_t
   \<and> numeric_limits_min int32_t \<le> numeric_limits_min int8_t
   \<and> numeric_limits_max int8_t \<le> numeric_limits_max int32_t
   \<and> 0 < width int32_t \<and> 0 < width int8_t
   \<and> in_range int8_t 100 \<and> clip int32_t int8_t 100 = 100
   \<and> numeric_limits_max int8_t < 300
   \<and> clip int32_t int8_t 300 = numeric_limits_max int8_t"
proof -
  have a: "numeric_limits_min int32_t \<le> numeric_limits_min int8_t
        \<and> numeric_limits_max int8_t \<le> numeric_limits_max int32_t
        \<and> 0 < width int32_t \<and> 0 < width int8_t"
    by (simp add: numeric_limits_min_def numeric_limits_max_def int32_t_def int8_t_def)
  have u: "0 < width uint32_t" by (simp add: uint32_t_def)
  have e: "in_range int8_t 100"
    by (simp add: in_range_def numeric_limits_min_def numeric_limits_max_def int8_t_def)
  have f: "numeric_limits_max int8_t < 300"
    by (simp add: numeric_limits_max_def int8_t_def)
  from clip_range_identity [of uint32_t int32_t 5] u
  have g: "numeric_limits_min uint32_t \<le> clip int32_t uint32_t 5
      \<and> clip int32_t uint32_t 5 \<le> numeric_limits_max uint32_t"
    by blast
  from clip_range_identity [of int8_t int32_t 100] a e
  have h: "clip int32_t int8_t 100 = 100" by blast
  from clip_range_identity [of int8_t int32_t 300] a f
  have i: "clip int32_t int8_t 300 = numeric_limits_max int8_t" by blast
  from a u e f g h i show ?thesis by blast
qed

text \<open>
  C10. \<open>clip<SrcTy, DestTy>\<close> is to return a value within the limits of \<open>DestTy\<close> and
  to return its input unchanged when the input already lies within them; the comment on
  the function says that it returns the input as clipped to the range of \<open>DestTy\<close>. The
  code does not, for an instantiation that passes its \<open>static_assert\<close>,
  which compares sizes only: in \<open>clip<int32_t, uint32_t>\<close> the upper limit 4294967295
  becomes \<open>-1\<close> in \<open>std::min<int32_t>\<close>, so the input 5, an \<open>int32_t\<close> that lies
  within the limits of \<open>uint32_t\<close>, is returned as 0.
\<close>

theorem clip_identity_counterexample:
  "clip_static_assert int32_t uint32_t \<and> in_range int32_t 5 \<and> in_range uint32_t 5
   \<and> clip int32_t uint32_t 5 = 0 \<and> clip int32_t uint32_t 5 \<noteq> 5"
  by (simp add: clip_static_assert_def in_range_def clip_def convert_def
      numeric_limits_min_def numeric_limits_max_def int32_t_def uint32_t_def)

section \<open>The registry as an association list\<close>

lemma length_delete_less:
  "map_of al k \<noteq> None \<Longrightarrow> length (AList.delete k al) < length al"
proof -
  assume "map_of al k \<noteq> None"
  then obtain v where "(k, v) \<in> set al"
    by (auto dest: map_of_SomeD)
  then show ?thesis
    unfolding AList.delete_eq by (rule length_filter_less) simp
qed

lemma removeNetwork_success_length:
  assumes "removeNetwork s k = Some (None, s', ev)" and "map_of (networks s) k \<noteq> None"
  shows "length (networks s') < length (networks s)"
  using assms
  by (auto simp: removeNetwork_def length_delete_less split: option.splits if_splits)

lemma map_of_fst_hd: "al \<noteq> [] \<Longrightarrow> map_of al (fst (hd al)) \<noteq> None"
  by (cases al) auto

section \<open>The small host\<close>

lemma host0_simps:
  "networks (host0 r a) = [(''net'', net0 r)]"
  "activeRequestCount (host0 r a) = a"
  "totalRequestCount (host0 r a) = 5"
  "maxActiveRequests (config (host0 r a)) = 1"
  "executor (host0 r a) = \<lparr>inflight = [], shuttingDown = False\<rparr>"
  "devices (host0 r a) = [dev0]"
  by (simp_all add: host0_def)

lemma host0_updates:
  "(host0 r a)\<lparr>activeRequestCount := b\<rparr> = host0 r b"
  "(host0 r a)\<lparr>networks := [(''net'', net0 q)]\<rparr> = host0 q a"
  "(net0 r)\<lparr>refcount := q\<rparr> = net0 q"
  by (simp_all add: host0_def net0_def)

section \<open>Properties of \<open>removeNetwork\<close>\<close>

text \<open>
  C7. \<open>removeNetwork\<close> on a name the registry does not hold returns success, with the
  orchestrator unchanged and nothing done outside it. On a registered name whose
  reference count is not zero it returns the \<open>RUNTIME_NET_BUSY\<close> error, again with the
  orchestrator unchanged (so the entry keeps its DAG, module and reference count) and
  with no event: no device is asked to evict and the Provisioner is not called.
\<close>

theorem removeNetwork_absent_or_busy:
  "(map_of (networks s) networkName = None \<longrightarrow> removeNetwork s networkName = Some (None, s, []))
   \<and> (\<forall>nd. map_of (networks s) networkName = Some nd \<and> refcount nd \<noteq> 0 \<longrightarrow>
         removeNetwork s networkName =
           Some (Some (MAKE_ERR RUNTIME_NET_BUSY
                  (''Cannot remove the network '' @ networkName
                     @ '', as there are still outstanding runs'')),
                 s, []))"
  by (simp add: removeNetwork_def)

theorem removeNetwork_absent_or_busy_witness:
  "map_of (networks (host0 1 1)) ''other'' = None
   \<and> removeNetwork (host0 1 1) ''other'' = Some (None, host0 1 1, [])
   \<and> map_of (networks (host0 1 1)) ''net'' = Some (net0 1)
   \<and> refcount (net0 1) \<noteq> 0
   \<and> removeNetwork (host0 1 1) ''net'' =
        Some (Some (MAKE_ERR RUNTIME_NET_BUSY
               ''Cannot remove the network net, as there are still outstanding runs''),
              host0 1 1, [])"
proof -
  have a: "map_of (networks (host0 1 1)) ''other'' = None"
    by (simp add: host0_def)
  have b: "map_of (networks (host0 1 1)) ''net'' = Some (net0 1)"
    by (simp add: host0_def)
  have c: "refcount (net0 1) \<noteq> 0"
    by (simp add: net0_def)
  from removeNetwork_absent_or_busy [of "host0 1 1" "''other''"] a
  have d: "removeNetwork (host0 1 1) ''other'' = Some (None, host0 1 1, [])"
    by blast
  from removeNetwork_absent_or_busy [of "host0 1 1" "''net''"] b c
  have e: "removeNetwork (host0 1 1) ''net'' =
        Some (Some (MAKE_ERR RUNTIME_NET_BUSY
               (''Cannot remove the network '' @ ''net'' @ '', as there are still outstanding runs'')),
              host0 1 1, [])"
    by blast
  from a b c d e show ?thesis by simp
qed

section \<open>Properties of \<open>runNetwork\<close>\<close>

text \<open>
  C8. \<open>runNetwork\<close> on a name the registry does not hold returns a Run Identifier (the
  value of the request counter at the call) and, before it returns, invokes the callback
  once with that identifier and the \<open>RUNTIME_NET_NOT_FOUND\<close> error. That call is the only
  event, so the Executor is not reached; on return, and when the callback runs, the
  orchestrator differs from the one before the call in the request counter only: no
  reference count and no active request count is left incremented.
\<close>

theorem runNetwork_not_found:
  assumes "map_of (networks s) networkName = None"
  shows "runNetwork env s networkName context callback =
     (totalRequestCount s, s\<lparr>totalRequestCount := totalRequestCount s + 1\<rparr>,
       [CallbackInvoked callback (totalRequestCount s)
          (Some (MAKE_ERR RUNTIME_NET_NOT_FOUND (''Function '' @ networkName @ '' not found'')))
          context (s\<lparr>totalRequestCount := totalRequestCount s + 1\<rparr>)])"
  using assms by (simp add: runNetwork_def Let_def)

theorem runNetwork_not_found_witness:
  "map_of (networks (host0 0 0)) ''other'' = None
   \<and> runNetwork env0 (host0 0 0) ''other'' 3 7 =
     (5, (host0 0 0)\<lparr>totalRequestCount := 6\<rparr>,
       [CallbackInvoked 7 5
          (Some (MAKE_ERR RUNTIME_NET_NOT_FOUND ''Function other not found''))
          3 ((host0 0 0)\<lparr>totalRequestCount := 6\<rparr>)])"
proof -
  have a: "map_of (networks (host0 0 0)) ''other'' = None"
    by (simp add: host0_def)
  have b: "totalRequestCount (host0 0 0) = 5"
    by (simp add: host0_def)
  from runNetwork_not_found [OF a, of env0 3 7] a b show ?thesis
    by simp
qed

subsection \<open>Reference counts\<close>

lemma update_refcount_active [simp]:
  "activeRequestCount (update_refcount nm f s) = activeRequestCount s"
  by (simp add: update_refcount_def split: option.splits)

lemma update_refcount_total [simp]:
  "totalRequestCount (update_refcount nm f s) = totalRequestCount s"
  by (simp add: update_refcount_def split: option.splits)

lemma update_refcount_executor [simp]:
  "executor (update_refcount nm f s) = executor s"
  by (simp add: update_refcount_def split: option.splits)

lemma update_refcount_config [simp]:
  "config (update_refcount nm f s) = config s"
  by (simp add: update_refcount_def split: option.splits)

lemma update_refcount_devices [simp]:
  "devices (update_refcount nm f s) = devices s"
  by (simp add: update_refcount_def split: option.splits)

lemma map_of_update_refcount:
  "map_of (networks (update_refcount nm f s)) k =
     (if k = nm then map_option (\<lambda>nd. nd\<lparr>refcount := f (refcount nd)\<rparr>) (map_of (networks s) nm)
      else map_of (networks s) k)"
  by (simp add: update_refcount_def update_conv' split: option.splits)

lemma map_fst_update_refcount [simp]:
  "map fst (networks (update_refcount nm f s)) = map fst (networks s)"
proof (cases "map_of (networks s) nm")
  case None
  then show ?thesis by (simp add: update_refcount_def)
next
  case (Some nd)
  then have "nm \<in> fst ` set (networks s)"
    by (metis map_of_eq_None_iff option.distinct(1))
  with Some show ?thesis by (simp add: update_refcount_def update_keys)
qed

subsection \<open>The completion callback\<close>

text \<open>
  What the completion callback does. A run that is admitted (the registry holds the name
  and the active request count is below the maximum) is forwarded to the Executor with
  the completion callback of lines 315 to 329 over the network name and the caller's
  callback. Whenever that completion callback is invoked, it invokes the caller's
  callback once, with the Run Identifier, error and context it was given, at a moment
  when the reference count of the entry (if the registry still holds the name) is
  already decremented and the active request count is not: \<open>--activeRequestCount_\<close>
  comes after the caller's callback has returned.
\<close>

theorem runNetwork_callback_order:
  assumes "map_of (networks s) networkName = Some nd"
    and "activeRequestCount s < maxActiveRequests (config s)"
    and "\<not> shuttingDown (executor s)"
  shows "(\<exists>s1. runNetwork env s networkName context callback =
            (totalRequestCount s, s1,
             [ExecutorRun (name (root (dag nd))) context (totalRequestCount s) (networkName, callback)])
          \<and> inflight (executor s1) =
              inflight (executor s) @ [(totalRequestCount s, context, (networkName, callback))])
       \<and> (\<forall>s2 runID err context'. \<exists>snap s3.
            runNetwork_callback (networkName, callback) s2 runID err context' =
              (s3, [CallbackInvoked callback runID err context' snap])
            \<and> map_of (networks snap) networkName =
                map_option (\<lambda>n. n\<lparr>refcount := refcount n - 1\<rparr>) (map_of (networks s2) networkName)
            \<and> activeRequestCount snap = activeRequestCount s2
            \<and> networks s3 = networks snap
            \<and> activeRequestCount s3 = activeRequestCount s2 - 1)"
  using assms
  by (simp add: runNetwork_def Let_def Executor_run_def runNetwork_callback_def
      map_of_update_refcount not_le [symmetric])

theorem runNetwork_callback_order_witness:
  "map_of (networks (host0 0 0)) ''net'' = Some (net0 0)
   \<and> activeRequestCount (host0 0 0) < maxActiveRequests (config (host0 0 0))
   \<and> \<not> shuttingDown (executor (host0 0 0))
   \<and> (\<exists>s1. runNetwork env0 (host0 0 0) ''net'' 3 7 = (5, s1, [ExecutorRun ''net'' 3 5 (''net'', 7)])
          \<and> inflight (executor s1) = [(5, 3, (''net'', 7))])
   \<and> (\<exists>snap s3. runNetwork_callback (''net'', 7) (host0 1 1) 5 None 3 =
          (s3, [CallbackInvoked 7 5 None 3 snap])
        \<and> map_of (networks snap) ''net'' = Some (net0 0)
        \<and> activeRequestCount snap = 1
        \<and> networks s3 = networks snap
        \<and> activeRequestCount s3 = 0)"
proof -
  have a: "map_of (networks (host0 0 0)) ''net'' = Some (net0 0)"
    by (simp add: host0_simps)
  have b: "activeRequestCount (host0 0 0) < maxActiveRequests (config (host0 0 0))"
    by (simp add: host0_simps)
  have c: "\<not> shuttingDown (executor (host0 0 0))"
    by (simp add: host0_simps)
  have d: "name (root (dag (net0 0))) = ''net''"
    by (simp add: net0_def dag0_def)
  have e: "map_option (\<lambda>n. n\<lparr>refcount := refcount n - 1\<rparr>) (map_of (networks (host0 1 1)) ''net'')
             = Some (net0 0)"
    by (simp add: host0_simps net0_def)
  note t = runNetwork_callback_order [OF a b c, of env0 3 7]
  from t have "\<exists>s1. runNetwork env0 (host0 0 0) ''net'' 3 7 = (5, s1, [ExecutorRun ''net'' 3 5 (''net'', 7)])
          \<and> inflight (executor s1) = [(5, 3, (''net'', 7))]"
    by (simp add: d host0_simps)
  moreover from t have "\<exists>snap s3. runNetwork_callback (''net'', 7) (host0 1 1) 5 None 3 =
          (s3, [CallbackInvoked 7 5 None 3 snap])
        \<and> map_of (networks snap) ''net'' = Some (net0 0)
        \<and> activeRequestCount snap = 1
        \<and> networks s3 = networks snap
        \<and> activeRequestCount s3 = 0"
    using e by (metis (no_types, lifting) host0_simps(2) diff_self)
  ultimately show ?thesis using a b c by blast
qed

lemma to_string_1: "to_string (Suc 0) = ''1''"
  by code_simp

text \<open>
  C3. The completion callback of an admitted run is to decrement the reference count of
  the entry and the active request count before it invokes the caller's callback, as
  the refusal path of \<open>runNetwork\<close> does (lines 301 to 303). The code does not: it invokes
  the caller's callback (line 327) before \<open>--activeRequestCount_\<close> (line 328). On the small
  host, which allows one active request, a run on \<open>net\<close> is admitted with no other
  request active. When the Executor completes it, the caller's callback is invoked in a
  state whose active request count is still 1 although the Executor holds no run; a
  \<open>runNetwork\<close> call made in that state, by the callback or by a caller that the callback
  has woken, is refused with \<open>RUNTIME_REQUEST_REFUSED\<close>.
\<close>

theorem runNetwork_callback_order_counterexample:
  "runNetwork env0 (host0 0 0) ''net'' 3 7 =
     (5, (host0 1 1)\<lparr>totalRequestCount := 6,
                      executor := \<lparr>inflight = [(5, 3, (''net'', 7))], shuttingDown = False\<rparr>\<rparr>,
      [ExecutorRun ''net'' 3 5 (''net'', 7)])
   \<and> runNetwork_callback (''net'', 7)
        ((host0 1 1)\<lparr>totalRequestCount := 6,
                      executor := \<lparr>inflight = [(5, 3, (''net'', 7))], shuttingDown = False\<rparr>\<rparr>)
        5 None 3 =
       ((host0 0 0)\<lparr>totalRequestCount := 6,
                      executor := \<lparr>inflight = [(5, 3, (''net'', 7))], shuttingDown = False\<rparr>\<rparr>,
        [CallbackInvoked 7 5 None 3
           ((host0 0 1)\<lparr>totalRequestCount := 6,
                      executor := \<lparr>inflight = [(5, 3, (''net'', 7))], shuttingDown = False\<rparr>\<rparr>)])
   \<and> activeRequestCount (host0 1 1) = 1
   \<and> activeRequestCount
        ((host0 0 1)\<lparr>totalRequestCount := 6,
                      executor := \<lparr>inflight = [(5, 3, (''net'', 7))], shuttingDown = False\<rparr>\<rparr>) = 1
   \<and> Executor_complete env0
        ((host0 1 1)\<lparr>totalRequestCount := 6,
                      executor := \<lparr>inflight = [(5, 3, (''net'', 7))], shuttingDown = False\<rparr>\<rparr>)
        0 =
       ((host0 0 0)\<lparr>totalRequestCount := 6\<rparr>,
        [CallbackInvoked 7 5 None 3 ((host0 0 1)\<lparr>totalRequestCount := 6\<rparr>)])
   \<and> inflight (executor ((host0 0 1)\<lparr>totalRequestCount := 6\<rparr>)) = []
   \<and> maxActiveRequests (config ((host0 0 1)\<lparr>totalRequestCount := 6\<rparr>)) = 1
   \<and> activeRequestCount ((host0 0 1)\<lparr>totalRequestCount := 6\<rparr>) = 1
   \<and> runNetwork env0 ((host0 0 1)\<lparr>totalRequestCount := 6\<rparr>) ''net'' 4 8 =
       (6, (host0 0 1)\<lparr>totalRequestCount := 7\<rparr>,
        [CallbackInvoked 8 6
           (Some (MAKE_ERR RUNTIME_REQUEST_REFUSED
              ''The number of allowed requests has been exceeded. active requests: 1 allowed requests: 1''))
           4 ((host0 0 1)\<lparr>totalRequestCount := 7\<rparr>)])"
  by (simp add: runNetwork_def runNetwork_callback_def Executor_run_def Executor_complete_def
      update_refcount_def Let_def host0_def net0_def dag0_def env0_def to_string_1)

section \<open>Properties of \<open>addNetwork\<close>\<close>

lemma find_registered_Some:
  "find_registered nets Fs = Some F \<Longrightarrow> F \<in> set Fs \<and> map_of nets F \<noteq> None"
  by (induction Fs) (auto split: if_splits)

lemma find_registered_None:
  "find_registered nets Fs = None \<longleftrightarrow> (\<forall>F \<in> set Fs. map_of nets F = None)"
  by (induction Fs) auto

text \<open>
  C5. When the module has a function whose name the registry already holds,
  \<open>addNetwork\<close> returns the error "Failed to add network: already have a function called
  F" (code \<open>RUNTIME_ERROR\<close>) for such a function \<open>F\<close>, and the orchestrator, its registry
  included, is as before the call: no entry is inserted or overwritten.
\<close>

theorem addNetwork_duplicate_name:
  assumes "\<exists>F \<in> set (getFunctions m). map_of (networks s) F \<noteq> None"
  shows "\<exists>F. F \<in> set (getFunctions m) \<and> map_of (networks s) F \<noteq> None
           \<and> addNetwork env s m cctx saturateHost =
               (Some (MAKE_ERR RUNTIME_ERROR
                       (''Failed to add network: already have a function called '' @ F)),
                s, cctx, [])"
proof -
  from assms have "find_registered (networks s) (getFunctions m) \<noteq> None"
    by (simp add: find_registered_None)
  then obtain F where F: "find_registered (networks s) (getFunctions m) = Some F"
    by blast
  then have "addNetwork env s m cctx saturateHost =
               (Some (MAKE_ERR RUNTIME_ERROR
                       (''Failed to add network: already have a function called '' @ F)),
                s, cctx, [])"
    by (simp add: addNetwork_def)
  with find_registered_Some [OF F] show ?thesis by blast
qed

theorem addNetwork_duplicate_name_witness:
  "(\<exists>F \<in> set (getFunctions (module0 [''fresh'', ''net''])). map_of (networks (host0 0 0)) F \<noteq> None)
   \<and> addNetwork env0 (host0 0 0) (module0 [''fresh'', ''net'']) cctx0 False =
       (Some (MAKE_ERR RUNTIME_ERROR ''Failed to add network: already have a function called net''),
        host0 0 0, cctx0, [])"
proof -
  have a: "\<exists>F \<in> set (getFunctions (module0 [''fresh'', ''net''])). map_of (networks (host0 0 0)) F \<noteq> None"
    by (simp add: module0_def host0_simps)
  from addNetwork_duplicate_name [OF a, of env0 cctx0 False]
  obtain F where F: "F \<in> set (getFunctions (module0 [''fresh'', ''net'']))"
      "map_of (networks (host0 0 0)) F \<noteq> None"
      "addNetwork env0 (host0 0 0) (module0 [''fresh'', ''net'']) cctx0 False =
               (Some (MAKE_ERR RUNTIME_ERROR
                       (''Failed to add network: already have a function called '' @ F)),
                host0 0 0, cctx0, [])"
    by blast
  from F(2) have "F = ''net''"
    by (simp add: host0_simps split: if_splits)
  with F(3) a show ?thesis by simp
qed

lemma networks_runNetwork_callback_empty:
  "networks s = [] \<Longrightarrow> networks (fst (runNetwork_callback cl s runID err context)) = []"
  by (simp add: runNetwork_callback_def Let_def update_refcount_def)

lemma networks_Executor_drain_empty:
  "networks s = [] \<Longrightarrow> networks (fst (Executor_drain env ps s)) = []"
proof (induction ps arbitrary: s)
  case Nil
  then show ?case by simp
next
  case (Cons p ps)
  obtain runId ctx cl where p: "p = (runId, ctx, cl)"
    by (cases p)
  let ?s0 = "s\<lparr>executor := (executor s)\<lparr>inflight := ps\<rparr>\<rparr>"
  have "networks (fst (runNetwork_callback cl ?s0 runId (executor_result env runId) ctx)) = []"
    using Cons.prems by (simp add: networks_runNetwork_callback_empty)
  then have "networks (fst (Executor_drain env ps
      (fst (runNetwork_callback cl ?s0 runId (executor_result env runId) ctx)))) = []"
    by (rule Cons.IH)
  then show ?case
    by (simp add: p Let_def split_beta)
qed

lemma networks_Executor_shutdown_empty:
  "networks s = [] \<Longrightarrow> networks (fst (Executor_shutdown env s)) = []"
  by (simp add: Executor_shutdown_def Let_def split_beta networks_Executor_drain_empty)

lemma addNetwork_error_networks:
  assumes "fst (addNetwork env s m cctx saturateHost) \<noteq> None"
  shows "networks (fst (snd (addNetwork env s m cctx saturateHost))) = networks s"
  using assms
  by (auto simp: addNetwork_def Let_def split_beta networks_Executor_shutdown_empty
      split: option.splits sum.splits if_splits prod.splits)

lemma addNetwork_success_provisioned:
  assumes "fst (addNetwork env s m cctx saturateHost) = None"
  shows "\<exists>devs nodeList c. provisioner_provision env devs nodeList m c = None"
proof (rule ccontr)
  assume "\<not> ?thesis"
  then have p: "(provisioner_provision env devs nodeList m c = None) = False" for devs nodeList c
    by simp
  have "fst (addNetwork env s m cctx saturateHost) \<noteq> None"
    unfolding addNetwork_def Let_def split_beta
    by (simp add: p del: not_None_eq split: option.split sum.split)
  with assms show False by contradiction
qed



section \<open>The sequence on the small host\<close>

lemma run_ops0: "map_option (snd \<circ> snd) (run_operations env0 (host0 0 0) ops0) = Some calls0"
  by code_simp

lemma run_ops0_Some: "\<exists>s' tr. run_operations env0 (host0 0 0) ops0 = Some (s', tr, calls0)"
  using run_ops0 by (cases "run_operations env0 (host0 0 0) ops0") auto

section \<open>Run Identifiers\<close>

lemma total_runNetwork_callback [simp]:
  "totalRequestCount (fst (runNetwork_callback cl s runID err context)) = totalRequestCount s"
  by (simp add: runNetwork_callback_def Let_def)

lemma total_Executor_drain [simp]:
  "totalRequestCount (fst (Executor_drain env ps s)) = totalRequestCount s"
  by (induction ps arbitrary: s) (auto simp: Let_def split_beta)

lemma total_Executor_shutdown [simp]:
  "totalRequestCount (fst (Executor_shutdown env s)) = totalRequestCount s"
  by (simp add: Executor_shutdown_def Let_def split_beta)

lemma total_Executor_complete [simp]:
  "totalRequestCount (fst (Executor_complete env s k)) = totalRequestCount s"
  by (simp add: Executor_complete_def split_beta)

lemma total_removeNetwork:
  "removeNetwork s n = Some (err, s', ev) \<Longrightarrow> totalRequestCount s' = totalRequestCount s"
  by (auto simp: removeNetwork_def split: option.splits if_splits)

lemma total_clearHost_loop:
  "clearHost_loop s = Some (err, s', ev) \<Longrightarrow> totalRequestCount s' = totalRequestCount s"
proof (induction s arbitrary: err s' ev rule: clearHost_loop.induct)
  case (1 s)
  show ?case
  proof (cases "length (networks s) \<noteq> 0")
    case False
    with "1.prems" show ?thesis by (simp add: clearHost_loop.simps)
  next
    case True
    with "1.prems" obtain e1 s1 ev1 where
      r: "removeNetwork s (fst (hd (networks s))) = Some (e1, s1, ev1)"
      by (auto simp: clearHost_loop.simps [of s] split: option.splits)
    have t1: "totalRequestCount s1 = totalRequestCount s"
      using r by (rule total_removeNetwork)
    show ?thesis
    proof (cases e1)
      case (Some e)
      with "1.prems" True r t1 show ?thesis
        by (simp add: clearHost_loop.simps [of s])
    next
      case None
      with "1.prems" True r obtain r2 ev2 where
        l: "clearHost_loop s1 = Some (r2, s', ev2)"
        by (auto simp: clearHost_loop.simps [of s] split: option.splits)
      from "1.IH" [OF True r refl refl None l] t1 show ?thesis by simp
    qed
  qed
qed

lemma total_clearHost:
  "clearHost env s = Some (err, s', ev) \<Longrightarrow> totalRequestCount s' = totalRequestCount s"
  by (auto simp: clearHost_def split_beta Let_def dest!: total_clearHost_loop
      split: option.splits)

lemma total_addNetwork [simp]:
  "totalRequestCount (fst (snd (addNetwork env s m cctx saturateHost))) = totalRequestCount s"
  by (simp add: addNetwork_def Let_def split_beta split: option.split sum.split)

lemma total_Executor_run [simp]:
  "totalRequestCount (fst (Executor_run env s r context runId cl)) = totalRequestCount s"
  by (simp add: Executor_run_def split_beta)

lemma runNetwork_id:
  "fst (runNetwork env s n context callback) = totalRequestCount s"
  by (simp add: runNetwork_def Let_def split_beta split: option.split)

lemma runNetwork_total:
  "totalRequestCount (fst (snd (runNetwork env s n context callback))) = totalRequestCount s + 1"
  by (simp add: runNetwork_def Let_def split_beta split: option.split)

lemma apply_operation_ids:
  assumes "apply_operation env s operation = Some (s', ev, calls)"
  shows "map (fst \<circ> snd) calls = (if is_RunNetwork operation then [totalRequestCount s] else [])
       \<and> totalRequestCount s' = totalRequestCount s + of_nat (length calls)"
proof (cases operation)
  case (RunNetwork n c cb)
  with assms obtain runId where "runNetwork env s n c cb = (runId, s', ev)"
    and "calls = [(cb, runId, c)]"
    by (auto split: prod.splits)
  with runNetwork_id [of env s n c cb] runNetwork_total [of env s n c cb] RunNetwork
  show ?thesis by simp
next
  case (RemoveNetwork n)
  with assms show ?thesis
    by (auto split: option.splits dest: total_removeNetwork)
next
  case (AddNetwork m c b)
  with assms obtain err c' where "addNetwork env s m c b = (err, s', c', ev)" and "calls = []"
    by (auto split: prod.splits)
  with total_addNetwork [of env s m c b] AddNetwork show ?thesis
    by simp
next
  case (ExecutorCompletes k)
  with assms have "Executor_complete env s k = (s', ev)" and "calls = []"
    by (auto split: prod.splits)
  with total_Executor_complete [of env s k] ExecutorCompletes show ?thesis
    by simp
next
  case ClearHost
  with assms show ?thesis
    by (auto split: option.splits dest: total_clearHost)
qed

lemma run_operations_ids:
  assumes "run_operations env s ops = Some (s', tr, calls)"
  shows "map (fst \<circ> snd) calls = map (\<lambda>i. totalRequestCount s + of_nat i) [0..<length calls]
       \<and> length calls = length (filter is_RunNetwork ops)
       \<and> totalRequestCount s' = totalRequestCount s + of_nat (length calls)"
  using assms
proof (induction ops arbitrary: s s' tr calls)
  case Nil
  then show ?case by simp
next
  case (Cons operation ops)
  from Cons.prems obtain s1 ev1 calls1 s2 ev2 calls2 where
    a: "apply_operation env s operation = Some (s1, ev1, calls1)"
    and r: "run_operations env s1 ops = Some (s2, ev2, calls2)"
    and e: "s' = s2" "tr = ev1 @ ev2" "calls = calls1 @ calls2"
    by (auto split: option.splits)
  note h1 = apply_operation_ids [OF a]
  note h2 = Cons.IH [OF r]
  have len1: "length calls1 = (if is_RunNetwork operation then 1 else 0)"
    using h1 [THEN conjunct1, THEN arg_cong, of length] by (simp split: if_splits)
  show ?case
  proof (cases "is_RunNetwork operation")
    case False
    with h1 h2 e len1 show ?thesis by simp
  next
    case True
    with h1 len1 have c1: "map (fst \<circ> snd) calls1 = [totalRequestCount s]"
      and t1: "totalRequestCount s1 = totalRequestCount s + 1"
      by simp_all
    have u: "map (\<lambda>i. totalRequestCount s + of_nat i) [0..<Suc (length calls2)] =
          totalRequestCount s # map (\<lambda>i. totalRequestCount s1 + of_nat i) [0..<length calls2]"
      by (simp add: upt_rec [of 0] map_Suc_upt [symmetric] t1 add.assoc del: upt_Suc)
    have l: "length calls = Suc (length calls2)"
      using e len1 True by simp
    have "map (fst \<circ> snd) calls = map (fst \<circ> snd) calls1 @ map (fst \<circ> snd) calls2"
      using e by simp
    also have "\<dots> = totalRequestCount s # map (\<lambda>i. totalRequestCount s1 + of_nat i) [0..<length calls2]"
      by (simp only: c1 h2 [THEN conjunct1] append_Cons append_Nil)
    finally have m: "map (fst \<circ> snd) calls
        = map (\<lambda>i. totalRequestCount s + of_nat i) [0..<length calls]"
      by (simp only: u l)
    have "totalRequestCount s' = totalRequestCount s + of_nat (length calls)"
      using h2 t1 e l by (simp add: add.assoc)
    moreover have "length calls = length (filter is_RunNetwork (operation # ops))"
      using h2 l True by simp
    ultimately show ?thesis using m by blast
  qed
qed

lemma consecutive_words_increasing:
  fixes t :: "'a::len word"
  assumes "unat t + n \<le> 2 ^ LENGTH('a)"
  shows "sorted_wrt (<) (map (\<lambda>i. t + of_nat i) [0..<n])"
proof -
  have u: "unat (t + of_nat i) = unat t + i" if "i < n" for i
  proof -
    from that assms have "unat t + i < 2 ^ LENGTH('a)" by simp
    moreover from this have "i < 2 ^ LENGTH('a)" by simp
    ultimately show ?thesis
      by (simp add: unat_word_ariths unat_of_nat)
  qed
  have "t + of_nat i < t + of_nat j" if "i < j" "j < n" for i j
    using that u [of i] u [of j] by (simp add: word_less_nat_alt)
  then show ?thesis
    by (simp add: sorted_wrt_map sorted_wrt_iff_nth_less)
qed

text \<open>
  C9. In any sequence of operations on one orchestrator, every \<open>runNetwork\<close> call,
  whichever way it ends, returns the value of the request counter and advances it by one;
  no other operation changes the counter. The identifiers returned are therefore
  consecutive in call order, and they are strictly increasing and pairwise distinct as
  long as the 64-bit counter has not run through all of its \<open>2 ^ 64\<close> values.
\<close>

theorem run_identifiers_increasing:
  assumes "run_operations env s ops = Some (s', tr, calls)"
  shows "map (fst \<circ> snd) calls = map (\<lambda>i. totalRequestCount s + of_nat i) [0..<length calls]
       \<and> length calls = length (filter is_RunNetwork ops)
       \<and> totalRequestCount s' = totalRequestCount s + of_nat (length calls)
       \<and> (unat (totalRequestCount s) + length calls \<le> 2 ^ 64 \<longrightarrow>
            sorted_wrt (<) (map (fst \<circ> snd) calls) \<and> distinct (map (fst \<circ> snd) calls))"
proof -
  note h = run_operations_ids [OF assms]
  have "sorted_wrt (<) (map (fst \<circ> snd) calls) \<and> distinct (map (fst \<circ> snd) calls)"
    if "unat (totalRequestCount s) + length calls \<le> 2 ^ 64"
  proof -
    from that have "sorted_wrt (<) (map (\<lambda>i. totalRequestCount s + of_nat i) [0..<length calls])"
      by (intro consecutive_words_increasing) simp
    with h have "sorted_wrt (<) (map (fst \<circ> snd) calls)" by simp
    then show ?thesis
      by (simp add: strict_sorted_iff)
  qed
  with h show ?thesis by blast
qed

theorem run_identifiers_increasing_witness:
  "\<exists>s' tr. run_operations env0 (host0 0 0) ops0 = Some (s', tr, calls0)
     \<and> map (fst \<circ> snd) calls0 = [5, 6, 7, 8]
     \<and> length (filter is_RunNetwork ops0) = 4
     \<and> totalRequestCount s' = 9
     \<and> unat (totalRequestCount (host0 0 0)) + length calls0 \<le> 2 ^ 64
     \<and> sorted_wrt (<) (map (fst \<circ> snd) calls0) \<and> distinct (map (fst \<circ> snd) calls0)"
proof -
  from run_ops0_Some obtain s' tr where
    r: "run_operations env0 (host0 0 0) ops0 = Some (s', tr, calls0)"
    by blast
  have b: "unat (totalRequestCount (host0 0 0)) + length calls0 \<le> 2 ^ 64"
    by (simp add: host0_simps calls0_def)
  have l: "length calls0 = 4" by (simp add: calls0_def)
  have t: "totalRequestCount (host0 0 0) = 5" by (simp add: host0_simps)
  from run_identifiers_increasing [OF r] b
  have "length calls0 = length (filter is_RunNetwork ops0)"
    and "totalRequestCount s' = totalRequestCount (host0 0 0) + of_nat (length calls0)"
    and "sorted_wrt (<) (map (fst \<circ> snd) calls0)" and "distinct (map (fst \<circ> snd) calls0)"
    by blast+
  moreover have "map (fst \<circ> snd) calls0 = [5, 6, 7, 8]"
    by (simp add: calls0_def)
  ultimately show ?thesis using r b l t by auto
qed

section \<open>Callbacks\<close>

lemma callbacks_append [simp]: "callbacks (xs @ ys) = callbacks xs @ callbacks ys"
  by (induction xs rule: callbacks.induct) simp_all

lemma executor_runNetwork_callback [simp]:
  "executor (fst (runNetwork_callback cl s runID err context)) = executor s"
  by (simp add: runNetwork_callback_def Let_def)

lemma callbacks_runNetwork_callback [simp]:
  "callbacks (snd (runNetwork_callback cl s runID err context)) = [(snd cl, runID, context)]"
  by (simp add: runNetwork_callback_def Let_def)

lemma Executor_drain_owed:
  "callbacks (snd (Executor_drain env ps s)) = map (\<lambda>(runId, context, cl). (snd cl, runId, context)) ps
   \<and> inflight (executor (fst (Executor_drain env ps s))) = (if ps = [] then inflight (executor s) else [])"
proof (induction ps arbitrary: s)
  case Nil
  show ?case by simp
next
  case (Cons p ps)
  obtain runId ctx cl where p: "p = (runId, ctx, cl)"
    by (cases p)
  let ?s1 = "fst (runNetwork_callback cl (s\<lparr>executor := (executor s)\<lparr>inflight := ps\<rparr>\<rparr>)
                    runId (executor_result env runId) ctx)"
  have "inflight (executor ?s1) = ps" by simp
  with Cons.IH [of ?s1] show ?case
    by (simp add: p Let_def split_beta)
qed

lemma Executor_shutdown_owed:
  "callbacks (snd (Executor_shutdown env s)) = owed s
   \<and> inflight (executor (fst (Executor_shutdown env s))) = []"
  using Executor_drain_owed
    [of env "inflight (executor s)" "s\<lparr>executor := (executor s)\<lparr>shuttingDown := True\<rparr>\<rparr>"]
  by (simp add: Executor_shutdown_def Let_def split_beta owed_def)

lemma owed_Nil: "inflight (executor s) = [] \<Longrightarrow> owed s = []"
  by (simp add: owed_def)

lemma Executor_complete_owed:
  "mset (callbacks (snd (Executor_complete env s k))) + mset (owed (fst (Executor_complete env s k)))
     = mset (owed s)"
proof (cases "k < length (inflight (executor s))")
  case False
  then show ?thesis by (simp add: Executor_complete_def)
next
  case True
  let ?xs = "inflight (executor s)"
  obtain runId ctx cl where p: "?xs ! k = (runId, ctx, cl)"
    by (cases "?xs ! k")
  have "mset ?xs = mset (take k ?xs @ drop (Suc k) ?xs) + {#?xs ! k#}"
    using True by (subst id_take_nth_drop [OF True]) simp
  then have "mset (owed s) =
      mset (map (\<lambda>(runId, context, cl). (snd cl, runId, context)) (take k ?xs @ drop (Suc k) ?xs))
      + {#(snd cl, runId, ctx)#}"
    unfolding owed_def mset_map by (simp add: p)
  with True show ?thesis
    by (simp add: Executor_complete_def p owed_def)
qed

lemma callbacks_evict_devices:
  "evict_devices devs nm ds e0 = Some (e, tr) \<Longrightarrow> callbacks tr = []"
proof (induction ds arbitrary: e0 e tr)
  case Nil
  then show ?case by simp
next
  case (Cons d ds)
  then show ?case
    by (auto simp: Let_def split: if_splits option.splits)
qed

lemma callbacks_evict_nodes:
  "evict_nodes devs ns e0 = Some (e, tr) \<Longrightarrow> callbacks tr = []"
proof (induction ns arbitrary: e0 e tr)
  case Nil
  then show ?case by simp
next
  case (Cons node ns)
  from Cons.prems obtain e1 ev1 ev2 where
    a: "evict_devices devs (name node) (deviceIDs node) e0 = Some (e1, ev1)"
    and b: "evict_nodes devs ns e1 = Some (e, ev2)"
    and c: "tr = ev1 @ RemoveFunction (name node) # ev2"
    by (auto split: option.splits)
  from callbacks_evict_devices [OF a] Cons.IH [OF b] c show ?case
    by simp
qed

lemma removeNetwork_owed:
  assumes "removeNetwork s n = Some (err, s', ev)"
  shows "callbacks ev = [] \<and> executor s' = executor s"
  using assms
  by (auto simp: removeNetwork_def split: option.splits if_splits dest: callbacks_evict_nodes)

lemma clearHost_loop_owed:
  "clearHost_loop s = Some (err, s', ev) \<Longrightarrow> callbacks ev = [] \<and> executor s' = executor s"
proof (induction s arbitrary: err s' ev rule: clearHost_loop.induct)
  case (1 s)
  show ?case
  proof (cases "length (networks s) \<noteq> 0")
    case False
    with "1.prems" show ?thesis by (simp add: clearHost_loop.simps)
  next
    case True
    with "1.prems" obtain e1 s1 ev1 where
      r: "removeNetwork s (fst (hd (networks s))) = Some (e1, s1, ev1)"
      by (auto simp: clearHost_loop.simps [of s] split: option.splits)
    note t1 = removeNetwork_owed [OF r]
    show ?thesis
    proof (cases e1)
      case (Some e)
      with "1.prems" True r t1 show ?thesis
        by (simp add: clearHost_loop.simps [of s])
    next
      case None
      with "1.prems" True r obtain r2 ev2 where
        l: "clearHost_loop s1 = Some (r2, s', ev2)" and e: "ev = ev1 @ ev2"
        by (auto simp: clearHost_loop.simps [of s] split: option.splits)
      from "1.IH" [OF True r refl refl None l] t1 e show ?thesis by simp
    qed
  qed
qed

lemma callbacks_stop_devices [simp]: "callbacks (snd (stop_devices devs i e)) = []"
  by (induction devs arbitrary: i e) (simp_all add: split_beta)

lemma clearHost_owed:
  assumes "clearHost env s = Some (err, s', ev)"
  shows "callbacks ev = owed s \<and> owed s' = []"
proof -
  obtain s1 ev1 where sh: "Executor_shutdown env s = (s1, ev1)"
    by (cases "Executor_shutdown env s")
  with Executor_shutdown_owed [of env s]
  have a: "callbacks ev1 = owed s" "inflight (executor s1) = []"
    by simp_all
  from assms sh obtain e2 s2 ev2 where l: "clearHost_loop s1 = Some (e2, s2, ev2)"
    by (auto simp: clearHost_def split: option.splits)
  note b = clearHost_loop_owed [OF l]
  from assms sh l have "s' = s2 \<and> (\<exists>ev3. ev = ev1 @ ev2 @ ev3 \<and> callbacks ev3 = [])"
    by (cases e2) (auto simp: clearHost_def split_beta)
  with a b show ?thesis
    by (auto simp: owed_def)
qed

lemma addNetwork_owed:
  "mset (callbacks (snd (snd (snd (addNetwork env s m cctx saturateHost)))))
     + mset (owed (fst (snd (addNetwork env s m cctx saturateHost)))) = mset (owed s)"
proof -
  have o: "owed (s\<lparr>devices := d\<rparr>) = owed s" for d
    by (simp add: owed_def)
  have e: "owed (t\<lparr>executor := \<lparr>inflight = [], shuttingDown = False\<rparr>\<rparr>) = []" for t
    by (simp add: owed_def)
  have n: "owed (t\<lparr>networks := x\<rparr>) = owed t" for t x
    by (simp add: owed_def)
  show ?thesis
    using Executor_shutdown_owed [of env "s\<lparr>devices := snd (profiling_devices env (devices s))\<rparr>"]
    by (simp add: addNetwork_def Let_def split_beta o e n split: option.split sum.split)
qed

lemma Executor_run_owed:
  "mset (callbacks (snd (Executor_run env s r context runId cl)))
     + mset (owed (fst (Executor_run env s r context runId cl)))
   = mset (owed s) + {#(snd cl, runId, context)#}"
  by (simp add: Executor_run_def split_beta owed_def)

lemma owed_update_refcount [simp]: "owed (update_refcount n f s) = owed s"
  by (simp add: owed_def)

lemma runNetwork_owed:
  "mset (callbacks (snd (snd (runNetwork env s n context callback))))
     + mset (owed (fst (snd (runNetwork env s n context callback))))
   = mset (owed s) + {#(callback, fst (runNetwork env s n context callback), context)#}"
proof -
  have t: "owed (t\<lparr>totalRequestCount := x\<rparr>) = owed t" for t x
    by (simp add: owed_def)
  have a: "owed (t\<lparr>activeRequestCount := x\<rparr>) = owed t" for t x
    by (simp add: owed_def)
  show ?thesis
    using Executor_run_owed [of env _ _ "context" "totalRequestCount s" "(n, callback)"]
    by (simp add: runNetwork_def Let_def split_beta t a split: option.split)
qed

lemma apply_operation_owed:
  assumes "apply_operation env s operation = Some (s', ev, calls)"
  shows "mset (callbacks ev) + mset (owed s') = mset (owed s) + mset calls"
proof (cases operation)
  case (RunNetwork n c cb)
  with assms obtain runId where "runNetwork env s n c cb = (runId, s', ev)"
    and "calls = [(cb, runId, c)]"
    by (auto split: prod.splits)
  with runNetwork_owed [of env s n c cb] show ?thesis by simp
next
  case (RemoveNetwork n)
  with assms show ?thesis
    by (auto split: option.splits dest: removeNetwork_owed simp: owed_def)
next
  case (AddNetwork m c b)
  with assms obtain err c' where "addNetwork env s m c b = (err, s', c', ev)" and "calls = []"
    by (auto split: prod.splits)
  with addNetwork_owed [of env s m c b] show ?thesis by simp
next
  case (ExecutorCompletes k)
  with assms have "Executor_complete env s k = (s', ev)" and "calls = []"
    by (auto split: prod.splits)
  with Executor_complete_owed [of env s k] show ?thesis by simp
next
  case ClearHost
  with assms show ?thesis
    by (auto split: option.splits dest: clearHost_owed)
qed

lemma run_operations_owed:
  assumes "run_operations env s ops = Some (s', tr, calls)"
  shows "mset (callbacks tr) + mset (owed s') = mset (owed s) + mset calls"
  using assms
proof (induction ops arbitrary: s s' tr calls)
  case Nil
  then show ?case by simp
next
  case (Cons operation ops)
  from Cons.prems obtain s1 ev1 calls1 s2 ev2 calls2 where
    a: "apply_operation env s operation = Some (s1, ev1, calls1)"
    and r: "run_operations env s1 ops = Some (s2, ev2, calls2)"
    and e: "s' = s2" "tr = ev1 @ ev2" "calls = calls1 @ calls2"
    by (auto split: option.splits)
  from apply_operation_owed [OF a] Cons.IH [OF r] e show ?case
    by (simp add: ac_simps)
qed

lemma run_operations_calls_distinct:
  assumes "run_operations env s ops = Some (s', tr, calls)"
    and "unat (totalRequestCount s) + length calls \<le> 2 ^ 64"
  shows "distinct calls"
proof -
  from assms(2)
  have "sorted_wrt (<) (map (\<lambda>i. totalRequestCount s + of_nat i) [0..<length calls])"
    by (intro consecutive_words_increasing) simp
  with run_operations_ids [OF assms(1)] have "sorted_wrt (<) (map (fst \<circ> snd) calls)"
    by simp
  then have "distinct (map (fst \<circ> snd) calls)"
    by (simp add: strict_sorted_iff)
  then show ?thesis
    by (rule distinct_map [THEN iffD1, THEN conjunct1])
qed

text \<open>
  C2. In any sequence of operations, the calls of callbacks made so far together with the
  calls the Executor still owes are exactly the \<open>runNetwork\<close> calls made (and what was
  owed at the start), each with its own callback, the Run Identifier it returned and its
  context. On an orchestrator that starts with nothing in flight, each \<open>runNetwork\<close>
  call's callback has therefore been invoked exactly once with the returned identifier, or
  is still owed by the Executor and has not been invoked; a call that fails lookup or is
  refused has its callback invoked before it returns and leaves nothing owed; and
  \<open>clearHost\<close> has every callback that is still owed invoked, and leaves nothing owed.
\<close>

theorem callback_exactly_once:
  assumes "run_operations env s ops = Some (s', tr, calls)"
  shows "(\<forall>c. count_list (callbacks tr) c + count_list (owed s') c
              = count_list calls c + count_list (owed s) c)
       \<and> (owed s = [] \<and> unat (totalRequestCount s) + length calls \<le> 2 ^ 64 \<longrightarrow>
            (\<forall>c. count_list (callbacks tr) c + count_list (owed s') c
                   = (if c \<in> set calls then 1 else 0)))
       \<and> (\<forall>s0 n context callback.
            map_of (networks s0) n = None \<or> maxActiveRequests (config s0) \<le> activeRequestCount s0 \<longrightarrow>
              callbacks (snd (snd (runNetwork env s0 n context callback)))
                = [(callback, fst (runNetwork env s0 n context callback), context)]
              \<and> owed (fst (snd (runNetwork env s0 n context callback))) = owed s0)
       \<and> (\<forall>err s2 ev. clearHost env s' = Some (err, s2, ev) \<longrightarrow>
            callbacks ev = owed s' \<and> owed s2 = [])"
proof -
  have g: "count_list (callbacks tr) c + count_list (owed s') c
              = count_list calls c + count_list (owed s) c" for c
  proof -
    from run_operations_owed [OF assms]
    have "count (mset (callbacks tr) + mset (owed s')) c = count (mset (owed s) + mset calls) c"
      by simp
    then show ?thesis by (simp add: count_mset)
  qed
  have h: "count_list (callbacks tr) c + count_list (owed s') c = (if c \<in> set calls then 1 else 0)"
    if "owed s = [] \<and> unat (totalRequestCount s) + length calls \<le> 2 ^ 64" for c
  proof -
    from that have "distinct calls"
      using run_operations_calls_distinct [OF assms] by blast
    then have "count (mset calls) c = (if c \<in> set calls then 1 else 0)"
      unfolding distinct_count_atmost_1 by (rule spec)
    then have "count_list calls c = (if c \<in> set calls then 1 else 0)"
      by (simp only: count_mset)
    with g [of c] that show ?thesis by simp
  qed
  have i: "callbacks (snd (snd (runNetwork env s0 n ctx callback)))
                = [(callback, fst (runNetwork env s0 n ctx callback), ctx)]
              \<and> owed (fst (snd (runNetwork env s0 n ctx callback))) = owed s0"
    if "map_of (networks s0) n = None \<or> maxActiveRequests (config s0) \<le> activeRequestCount s0"
    for s0 n ctx callback
    using that by (auto simp: runNetwork_def Let_def owed_def split: option.splits)
  have j: "callbacks ev = owed s' \<and> owed s2 = []"
    if "clearHost env s' = Some (err, s2, ev)" for err s2 ev
    using that by (rule clearHost_owed)
  from g h i j show ?thesis by blast
qed

theorem callback_exactly_once_witness:
  "\<exists>s' tr. run_operations env0 (host0 0 0) ops0 = Some (s', tr, calls0)
     \<and> owed (host0 0 0) = []
     \<and> unat (totalRequestCount (host0 0 0)) + length calls0 \<le> 2 ^ 64
     \<and> owed s' = []
     \<and> count_list (callbacks tr) (10, 5, 1) = 1
     \<and> count_list (callbacks tr) (11, 6, 2) = 1
     \<and> count_list (callbacks tr) (12, 7, 3) = 1
     \<and> count_list (callbacks tr) (13, 8, 4) = 1
     \<and> count_list (callbacks tr) (10, 6, 1) = 0
     \<and> map_of (networks (host0 0 0)) ''missing'' = None
     \<and> callbacks (snd (snd (runNetwork env0 (host0 0 0) ''missing'' 2 11)))
          = [(11, fst (runNetwork env0 (host0 0 0) ''missing'' 2 11), 2)]"
proof -
  from run_ops0_Some obtain s' tr where
    r: "run_operations env0 (host0 0 0) ops0 = Some (s', tr, calls0)"
    by blast
  have o: "owed (host0 0 0) = []"
    by (simp add: owed_def host0_simps)
  have b: "unat (totalRequestCount (host0 0 0)) + length calls0 \<le> 2 ^ 64"
    by (simp add: host0_simps calls0_def)
  have m: "map_of (networks (host0 0 0)) ''missing'' = None"
    by (simp add: host0_simps)
  have "map_option (\<lambda>x. owed (fst x)) (run_operations env0 (host0 0 0) ops0) = Some []"
    by code_simp
  with r have e: "owed s' = []" by simp
  note t = callback_exactly_once [OF r]
  from t o b have c: "count_list (callbacks tr) c + count_list (owed s') c
                   = (if c \<in> set calls0 then 1 else 0)" for c
    by blast
  have "count_list (callbacks tr) (10, 5, 1) = 1"
    and "count_list (callbacks tr) (11, 6, 2) = 1"
    and "count_list (callbacks tr) (12, 7, 3) = 1"
    and "count_list (callbacks tr) (13, 8, 4) = 1"
    and "count_list (callbacks tr) (10, 6, 1) = 0"
    using c [of "(10, 5, 1)"] c [of "(11, 6, 2)"] c [of "(12, 7, 3)"] c [of "(13, 8, 4)"]
      c [of "(10, 6, 1)"] e
    by (simp_all add: calls0_def)
  moreover from t m
  have "callbacks (snd (snd (runNetwork env0 (host0 0 0) ''missing'' 2 11)))
          = [(11, fst (runNetwork env0 (host0 0 0) ''missing'' 2 11), 2)]"
    by blast
  ultimately show ?thesis using r o b e m by blast
qed

section \<open>Properties of \<open>clearHost\<close>\<close>

lemma refcounts_consistent_iff:
  "refcounts_consistent s \<longleftrightarrow>
     (\<forall>n nd. map_of (networks s) n = Some nd \<longrightarrow> unat (refcount nd) = runs_in_flight s n)"
proof
  assume c: "refcounts_consistent s"
  show "\<forall>n nd. map_of (networks s) n = Some nd \<longrightarrow> unat (refcount nd) = runs_in_flight s n"
  proof (intro allI impI)
    fix n nd
    assume m: "map_of (networks s) n = Some nd"
    then have "n \<in> set (map fst (networks s))"
      by (metis map_of_eq_None_iff option.distinct(1) set_map)
    with c m show "unat (refcount nd) = runs_in_flight s n"
      by (auto simp: refcounts_consistent_def list_all_iff)
  qed
next
  assume "\<forall>n nd. map_of (networks s) n = Some nd \<longrightarrow> unat (refcount nd) = runs_in_flight s n"
  then show "refcounts_consistent s"
    by (auto simp: refcounts_consistent_def list_all_iff split: option.splits)
qed

lemma drain_refcounts_zero:
  assumes "\<forall>n nd. map_of (networks s) n = Some nd \<longrightarrow>
             unat (refcount nd) = length (filter (\<lambda>(runId, context, cl). fst cl = n) ps)"
  shows "\<forall>n nd. map_of (networks (fst (Executor_drain env ps s))) n = Some nd \<longrightarrow> refcount nd = 0"
  using assms
proof (induction ps arbitrary: s)
  case Nil
  then show ?case by (auto simp: unat_eq_zero)
next
  case (Cons p ps)
  obtain runId ctx cl where p: "p = (runId, ctx, cl)"
    by (cases p)
  let ?s0 = "s\<lparr>executor := (executor s)\<lparr>inflight := ps\<rparr>\<rparr>"
  let ?s1 = "fst (runNetwork_callback cl ?s0 runId (executor_result env runId) ctx)"
  have n1: "networks ?s1 = networks (update_refcount (fst cl) (\<lambda>r. r - 1) ?s0)"
    by (simp add: runNetwork_callback_def Let_def)
  have "\<forall>n nd. map_of (networks ?s1) n = Some nd \<longrightarrow>
             unat (refcount nd) = length (filter (\<lambda>(runId, context, cl). fst cl = n) ps)"
  proof (intro allI impI)
    fix n nd
    assume m: "map_of (networks ?s1) n = Some nd"
    show "unat (refcount nd) = length (filter (\<lambda>(runId, context, cl). fst cl = n) ps)"
    proof (cases "n = fst cl")
      case False
      with m n1 have "map_of (networks s) n = Some nd"
        by (simp add: map_of_update_refcount)
      with Cons.prems False show ?thesis
        by (auto simp: p)
    next
      case True
      with m n1 obtain nd0 where m0: "map_of (networks s) n = Some nd0"
        and nd: "nd = nd0\<lparr>refcount := refcount nd0 - 1\<rparr>"
        by (auto simp: map_of_update_refcount)
      from Cons.prems m0 True
      have u: "unat (refcount nd0) = Suc (length (filter (\<lambda>(runId, context, cl). fst cl = n) ps))"
        by (auto simp: p)
      then have "refcount nd0 \<noteq> 0"
        by (auto simp: unat_eq_zero [symmetric] simp del: unat_eq_zero)
      then have "unat (refcount nd0 - 1) = unat (refcount nd0) - 1"
        by (rule unat_minus_one)
      with u nd show ?thesis by simp
    qed
  qed
  from Cons.IH [OF this] show ?case
    by (simp add: p Let_def split_beta)
qed

lemma shutdown_refcounts_zero:
  assumes "refcounts_consistent s"
  shows "\<forall>n nd. map_of (networks (fst (Executor_shutdown env s))) n = Some nd \<longrightarrow> refcount nd = 0"
proof -
  let ?s0 = "s\<lparr>executor := (executor s)\<lparr>shuttingDown := True\<rparr>\<rparr>"
  from assms have "\<forall>n nd. map_of (networks ?s0) n = Some nd \<longrightarrow>
      unat (refcount nd) = length (filter (\<lambda>(runId, context, cl). fst cl = n) (inflight (executor s)))"
    by (simp add: refcounts_consistent_iff runs_in_flight_def)
  from drain_refcounts_zero [OF this, of env] show ?thesis
    by (simp add: Executor_shutdown_def Let_def split_beta)
qed

lemma dags_update:
  "map_of al k = Some nd \<Longrightarrow>
     map (\<lambda>(n, x). (n, dag x)) (AList.update k (nd\<lparr>refcount := r\<rparr>) al)
       = map (\<lambda>(n, x). (n, dag x)) al"
  by (induction al) (auto split: if_splits)

lemma dags_update_refcount [simp]: "dags (update_refcount nm f s) = dags s"
  by (simp add: dags_def update_refcount_def dags_update split: option.splits)

lemma dags_runNetwork_callback [simp]:
  "dags (fst (runNetwork_callback cl s runID err context)) = dags s"
proof -
  have "dags (t\<lparr>activeRequestCount := x\<rparr>) = dags t" for t x
    by (simp add: dags_def)
  then show ?thesis
    by (simp add: runNetwork_callback_def Let_def)
qed

lemma devices_runNetwork_callback [simp]:
  "devices (fst (runNetwork_callback cl s runID err context)) = devices s"
  by (simp add: runNetwork_callback_def Let_def)

lemma Executor_drain_keeps:
  "dags (fst (Executor_drain env ps s)) = dags s
   \<and> devices (fst (Executor_drain env ps s)) = devices s"
proof (induction ps arbitrary: s)
  case Nil
  show ?case by simp
next
  case (Cons p ps)
  obtain runId ctx cl where p: "p = (runId, ctx, cl)"
    by (cases p)
  let ?s0 = "s\<lparr>executor := (executor s)\<lparr>inflight := ps\<rparr>\<rparr>"
  have "dags ?s0 = dags s" by (simp add: dags_def)
  with Cons.IH [of "fst (runNetwork_callback cl ?s0 runId (executor_result env runId) ctx)"]
  show ?case
    by (simp add: p Let_def split_beta)
qed

lemma Executor_shutdown_keeps:
  "dags (fst (Executor_shutdown env s)) = dags s
   \<and> devices (fst (Executor_shutdown env s)) = devices s"
proof -
  let ?s0 = "s\<lparr>executor := (executor s)\<lparr>shuttingDown := True\<rparr>\<rparr>"
  have "dags ?s0 = dags s" by (simp add: dags_def)
  with Executor_drain_keeps [of env "inflight (executor s)" ?s0] show ?thesis
    by (simp add: Executor_shutdown_def Let_def split_beta)
qed

lemma evictions_succeed_dags:
  assumes "dags s' = dags s" and "devices s' = devices s"
  shows "evictions_succeed s' = evictions_succeed s"
proof -
  have "evictions_succeed t =
     list_all (\<lambda>(n, d).
        list_all (\<lambda>node.
           list_all (\<lambda>device. device < length (devices t)
                        \<and> evictNetwork (devices t ! device) (name node) = None)
             (deviceIDs node))
          (nodes d))
       (dags t)" for t
    by (simp add: evictions_succeed_def dags_def list_all_iff split_beta)
  with assms show ?thesis by simp
qed

lemma drained_with_registry_drain:
  "drained_with_registry (map fst (networks s)) (snd (Executor_drain env ps s))"
proof (induction ps arbitrary: s)
  case Nil
  show ?case by simp
next
  case (Cons p ps)
  obtain runId ctx cl where p: "p = (runId, ctx, cl)"
    by (cases p)
  let ?s0 = "s\<lparr>executor := (executor s)\<lparr>inflight := ps\<rparr>\<rparr>"
  let ?s1 = "fst (runNetwork_callback cl ?s0 runId (executor_result env runId) ctx)"
  have k: "map fst (networks ?s1) = map fst (networks s)"
    by (simp add: runNetwork_callback_def Let_def)
  from Cons.IH [of ?s1] k show ?case
    by (simp add: p Let_def split_beta runNetwork_callback_def)
qed

lemma stopped_append [simp]: "stopped (xs @ ys) = stopped xs @ stopped ys"
  by (induction xs rule: stopped.induct) simp_all

lemma stopped_evict_devices:
  "evict_devices devs nm ds e0 = Some (e, tr) \<Longrightarrow> stopped tr = []"
proof (induction ds arbitrary: e0 e tr)
  case Nil
  then show ?case by simp
next
  case (Cons d ds)
  then show ?case
    by (auto simp: Let_def split: if_splits option.splits)
qed

lemma stopped_evict_nodes:
  "evict_nodes devs ns e0 = Some (e, tr) \<Longrightarrow> stopped tr = []"
proof (induction ns arbitrary: e0 e tr)
  case Nil
  then show ?case by simp
next
  case (Cons node ns)
  from Cons.prems obtain e1 ev1 ev2 where
    a: "evict_devices devs (name node) (deviceIDs node) e0 = Some (e1, ev1)"
    and b: "evict_nodes devs ns e1 = Some (e, ev2)"
    and c: "tr = ev1 @ RemoveFunction (name node) # ev2"
    by (auto split: option.splits)
  from stopped_evict_devices [OF a] Cons.IH [OF b] c show ?case
    by simp
qed

lemma removeNetwork_stopped:
  assumes "removeNetwork s n = Some (err, s', ev)"
  shows "stopped ev = [] \<and> devices s' = devices s"
  using assms
  by (auto simp: removeNetwork_def split: option.splits if_splits dest: stopped_evict_nodes)

lemma clearHost_loop_result:
  "clearHost_loop s = Some (r, s', ev) \<Longrightarrow>
     stopped ev = [] \<and> devices s' = devices s \<and> (r = None \<longrightarrow> networks s' = [])"
proof (induction s arbitrary: r s' ev rule: clearHost_loop.induct)
  case (1 s)
  show ?case
  proof (cases "length (networks s) \<noteq> 0")
    case False
    with "1.prems" show ?thesis by (simp add: clearHost_loop.simps)
  next
    case True
    with "1.prems" obtain e1 s1 ev1 where
      rm: "removeNetwork s (fst (hd (networks s))) = Some (e1, s1, ev1)"
      by (auto simp: clearHost_loop.simps [of s] split: option.splits)
    note t1 = removeNetwork_stopped [OF rm]
    show ?thesis
    proof (cases e1)
      case (Some e)
      with "1.prems" True rm t1 show ?thesis
        by (auto simp: clearHost_loop.simps [of s])
    next
      case None
      with "1.prems" True rm obtain ev2 where
        l: "clearHost_loop s1 = Some (r, s', ev2)" and e: "ev = ev1 @ ev2"
        by (auto simp: clearHost_loop.simps [of s] split: option.splits)
      from "1.IH" [OF True rm refl refl None l] t1 e show ?thesis by simp
    qed
  qed
qed

lemma OneErrOnly_set_None [simp]: "OneErrOnly_set e None = e"
  by (simp add: OneErrOnly_set_def split: option.splits)

lemma evict_devices_succeed:
  assumes "list_all (\<lambda>device. device < length devs \<and> evictNetwork (devs ! device) nm = None) ds"
  shows "evict_devices devs nm ds e0 = Some (e0, map (\<lambda>device. EvictNetwork device nm) ds)"
  using assms by (induction ds) simp_all

lemma evict_nodes_succeed:
  assumes "list_all (\<lambda>node. list_all (\<lambda>device. device < length devs
              \<and> evictNetwork (devs ! device) (name node) = None) (deviceIDs node)) ns"
  shows "\<exists>ev. evict_nodes devs ns e0 = Some (e0, ev)"
  using assms by (induction ns) (auto simp: evict_devices_succeed)

lemma clearHost_loop_succeeds:
  assumes "\<forall>n nd. map_of (networks s) n = Some nd \<longrightarrow> refcount nd = 0"
    and "evictions_succeed s"
  shows "\<exists>ev. clearHost_loop s = Some (None, s\<lparr>networks := []\<rparr>, ev)"
  using assms
proof (induction "length (networks s)" arbitrary: s rule: less_induct)
  case less
  show ?case
  proof (cases "networks s")
    case Nil
    then have "s\<lparr>networks := []\<rparr> = s" by simp
    with Nil show ?thesis by (simp add: clearHost_loop.simps [of s])
  next
    case (Cons p rest)
    obtain k nd where p: "p = (k, nd)" by (cases p)
    from Cons p have m: "map_of (networks s) k = Some nd" by simp
    with less.prems(1) have z: "refcount nd = 0" by blast
    from less.prems(2) Cons p
    have "list_all (\<lambda>node. list_all (\<lambda>device. device < length (devices s)
              \<and> evictNetwork (devices s ! device) (name node) = None) (deviceIDs node))
            (nodes (dag nd))"
      by (simp add: evictions_succeed_def)
    from evict_nodes_succeed [OF this, of None] obtain ev1 where
      ev1: "evict_nodes (devices s) (nodes (dag nd)) None = Some (None, ev1)"
      by blast
    let ?s1 = "s\<lparr>networks := AList.delete k (networks s)\<rparr>"
    have rm: "removeNetwork s (fst (hd (networks s))) = Some (None, ?s1, ev1)"
      using Cons p m z ev1 by (simp add: removeNetwork_def)
    have len: "length (networks ?s1) < length (networks s)"
      using m by (simp add: length_delete_less)
    have z1: "\<forall>n nd. map_of (networks ?s1) n = Some nd \<longrightarrow> refcount nd = 0"
      using less.prems(1) by (auto simp: delete_conv' split: if_splits)
    have "set (networks ?s1) \<subseteq> set (networks s)"
      by (auto simp: AList.delete_eq)
    with less.prems(2) have e1: "evictions_succeed ?s1"
      by (fastforce simp: evictions_succeed_def list_all_iff)
    from less.hyps [OF len z1 e1] obtain ev2 where
      "clearHost_loop ?s1 = Some (None, ?s1\<lparr>networks := []\<rparr>, ev2)"
      by blast
    with rm Cons show ?thesis
      by (simp add: clearHost_loop.simps [of s])
  qed
qed

lemma stop_devices_result:
  "stopped (snd (stop_devices devs i e)) = [i..<i + length devs]
   \<and> fst (stop_devices devs i e) = first_error (e # map stop devs)"
proof (induction devs arbitrary: i e)
  case Nil
  show ?case by (simp split: option.splits)
next
  case (Cons d devs)
  have "i < i + length (d # devs)" by simp
  then have "[i..<i + length (d # devs)] = i # [Suc i..<i + length (d # devs)]"
    by (rule upt_conv_Cons)
  then have u: "[i..<i + length (d # devs)] = i # [Suc i..<Suc i + length devs]"
    by (simp del: upt_Suc)
  from Cons [of "Suc i" "OneErrOnly_set e (stop d)"] show ?case
    unfolding u by (simp add: split_beta OneErrOnly_set_def split: option.splits)
qed

lemma drained_stopped: "drained_with_registry names tr \<Longrightarrow> stopped tr = []"
  by (induction names tr rule: drained_with_registry.induct) simp_all

lemma Executor_shutdown_events:
  "\<exists>cbs. snd (Executor_shutdown env s) = ExecutorShutdown # cbs
     \<and> drained_with_registry (map fst (networks s)) cbs \<and> callbacks cbs = owed s"
proof -
  let ?s0 = "s\<lparr>executor := (executor s)\<lparr>shuttingDown := True\<rparr>\<rparr>"
  let ?cbs = "snd (Executor_drain env (inflight (executor s)) ?s0)"
  have "snd (Executor_shutdown env s) = ExecutorShutdown # ?cbs"
    by (simp add: Executor_shutdown_def Let_def split_beta)
  moreover have "drained_with_registry (map fst (networks s)) ?cbs"
    using drained_with_registry_drain [of ?s0 env "inflight (executor s)"] by simp
  moreover have "callbacks ?cbs = owed s"
    using Executor_drain_owed [of env "inflight (executor s)" ?s0] by (simp add: owed_def)
  ultimately show ?thesis by blast
qed

lemma clearHost_returns:
  assumes "clearHost env s = Some (r, s', tr)"
  shows "(\<exists>cbs tr'. tr = ExecutorShutdown # cbs @ tr'
            \<and> drained_with_registry (map fst (networks s)) cbs \<and> callbacks cbs = owed s
            \<and> callbacks tr' = [])
       \<and> inflight (executor s') = []
       \<and> ((networks s' = [] \<and> stopped tr = [0..<length (devices s)]
            \<and> r = first_error (map stop (devices s)))
          \<or> (r \<noteq> None \<and> stopped tr = []))"
proof -
  obtain s1 ev1 where sh: "Executor_shutdown env s = (s1, ev1)"
    by (cases "Executor_shutdown env s")
  from Executor_shutdown_events [of env s] sh obtain cbs where
    ev1: "ev1 = ExecutorShutdown # cbs"
    and dr: "drained_with_registry (map fst (networks s)) cbs" and cb: "callbacks cbs = owed s"
    by auto
  from Executor_shutdown_owed [of env s] Executor_shutdown_keeps [of env s] sh
  have i1: "inflight (executor s1) = []" and d1: "devices s1 = devices s"
    by simp_all
  from assms sh obtain e2 s2 ev2 where l: "clearHost_loop s1 = Some (e2, s2, ev2)"
    by (auto simp: clearHost_def split: option.splits)
  from clearHost_loop_owed [OF l] clearHost_loop_result [OF l]
  have l2: "callbacks ev2 = []" "executor s2 = executor s1" "stopped ev2 = []"
    "devices s2 = devices s1" "e2 = None \<longrightarrow> networks s2 = []"
    by simp_all
  show ?thesis
  proof (cases e2)
    case (Some e)
    with assms sh l have "r = Some e" "s' = s2" "tr = ExecutorShutdown # cbs @ ev2"
      by (simp_all add: clearHost_def ev1)
    moreover have "\<exists>cbs' tr'. ExecutorShutdown # cbs @ ev2 = ExecutorShutdown # cbs' @ tr'
            \<and> drained_with_registry (map fst (networks s)) cbs' \<and> callbacks cbs' = owed s
            \<and> callbacks tr' = []"
      using dr cb l2 by (intro exI [of _ cbs] exI [of _ ev2]) simp
    ultimately show ?thesis
      using l2 i1 drained_stopped [OF dr] by simp
  next
    case None
    obtain e3 ev3 where st: "stop_devices (devices s2) 0 None = (e3, ev3)"
      by (cases "stop_devices (devices s2) 0 None")
    with stop_devices_result [of "devices s2" 0 None] l2 d1
    have s3: "stopped ev3 = [0..<length (devices s)]" "e3 = first_error (map stop (devices s))"
      "callbacks ev3 = []"
      using callbacks_stop_devices [of "devices s2" 0 None] by simp_all
    from None assms sh l st
    have "r = e3" "s' = s2" "tr = ExecutorShutdown # cbs @ (ev2 @ ev3)"
      by (simp_all add: clearHost_def ev1)
    moreover have "\<exists>cbs' tr'. ExecutorShutdown # cbs @ (ev2 @ ev3) = ExecutorShutdown # cbs' @ tr'
            \<and> drained_with_registry (map fst (networks s)) cbs' \<and> callbacks cbs' = owed s
            \<and> callbacks tr' = []"
      using dr cb l2 s3 by (intro exI [of _ cbs] exI [of _ "ev2 @ ev3"]) simp
    ultimately show ?thesis
      using l2 i1 drained_stopped [OF dr] s3 None by simp
  qed
qed

lemma clearHost_succeeds:
  assumes "refcounts_consistent s" and "evictions_succeed s"
  shows "\<exists>s' tr. clearHost env s = Some (first_error (map stop (devices s)), s', tr)
           \<and> networks s' = [] \<and> stopped tr = [0..<length (devices s)]"
proof -
  obtain s1 ev1 where sh: "Executor_shutdown env s = (s1, ev1)"
    by (cases "Executor_shutdown env s")
  from shutdown_refcounts_zero [OF assms(1), of env] sh
  have z: "\<forall>n nd. map_of (networks s1) n = Some nd \<longrightarrow> refcount nd = 0"
    by simp
  from Executor_shutdown_keeps [of env s] sh
  have k: "dags s1 = dags s" "devices s1 = devices s"
    by simp_all
  from evictions_succeed_dags [OF k] assms(2) have e: "evictions_succeed s1"
    by simp
  from clearHost_loop_succeeds [OF z e] obtain ev2 where
    l: "clearHost_loop s1 = Some (None, s1\<lparr>networks := []\<rparr>, ev2)"
    by blast
  obtain e3 ev3 where st: "stop_devices (devices s1) 0 None = (e3, ev3)"
    by (cases "stop_devices (devices s1) 0 None")
  have "devices (s1\<lparr>networks := []\<rparr>) = devices s1" by simp
  with st have st': "stop_devices (devices (s1\<lparr>networks := []\<rparr>)) 0 None = (e3, ev3)"
    by simp
  have c: "clearHost env s = Some (e3, s1\<lparr>networks := []\<rparr>, ev1 @ ev2 @ ev3)"
    unfolding clearHost_def sh by (simp only: l st' Let_def prod.case option.case)
  from clearHost_returns [OF c] have
    "stopped (ev1 @ ev2 @ ev3) = [0..<length (devices s)] \<and> e3 = first_error (map stop (devices s))
     \<or> e3 \<noteq> None \<and> stopped (ev1 @ ev2 @ ev3) = []"
    by blast
  moreover from stop_devices_result [of "devices s1" 0 None] st k
  have "stopped ev3 = [0..<length (devices s)]" "e3 = first_error (map stop (devices s))"
    by simp_all
  ultimately have "stopped (ev1 @ ev2 @ ev3) = [0..<length (devices s)]
      \<and> e3 = first_error (map stop (devices s))"
    by (cases "devices s") auto
  with c show ?thesis by auto
qed




section \<open>Properties of concurrent \<open>runNetwork\<close> calls\<close>

lemma run_sched0:
  "fst (snd (run_schedule env0 args0 sched0 (host0 0 0, [NotCalled, NotCalled], [])))
     = [AtForward 5, AtAdmission 6]
   \<and> activeRequestCount (fst (run_schedule env0 args0 sched0 (host0 0 0, [NotCalled, NotCalled], [])))
     = 1
   \<and> maxActiveRequests
       (config (fst (run_schedule env0 args0 sched0 (host0 0 0, [NotCalled, NotCalled], []))))
     = 1"
  by code_simp

lemma run_sched1:
  "fst (snd (run_schedule env0 args0 (sched0 @ 1 # sched1) (host0 0 0, [NotCalled, NotCalled], [])))
     = [InExecutor 5, Finished 6]"
  by code_simp

lemma filter_update_count:
  "i < length xs \<Longrightarrow>
     length (filter P (xs[i := y])) + (if P (xs ! i) then 1 else 0)
       = length (filter P xs) + (if P y then 1 else 0)"
proof (induction xs arbitrary: i)
  case Nil
  then show ?case by simp
next
  case (Cons x xs)
  show ?case
  proof (cases i)
    case 0
    then show ?thesis by simp
  next
    case (Suc j)
    with Cons.prems have "j < length xs" by simp
    from Cons.IH [OF this] Suc show ?thesis by simp
  qed
qed

lemma admitted_counted: "admitted pc \<Longrightarrow> counted pc"
  by (cases pc) simp_all

lemma admitted_le_counted: "length (filter admitted pcs) \<le> length (filter counted pcs)"
proof (induction pcs)
  case Nil
  show ?case by simp
next
  case (Cons pc pcs)
  then show ?case by (auto dest: admitted_counted)
qed

lemma counted_positive:
  "i < length pcs \<Longrightarrow> counted (pcs ! i) \<Longrightarrow> 0 < length (filter counted pcs)"
  by (auto simp: length_greater_0_conv filter_empty_conv simp del: length_greater_0_conv
      intro!: nth_mem)

lemma not_counted_less:
  assumes "i < length pcs" and "\<not> counted (pcs ! i)"
  shows "length (filter counted pcs) < length pcs"
proof -
  from assms have "pcs ! i \<in> set pcs" by simp
  with assms(2) show ?thesis
    by (intro length_filter_less) auto
qed

lemma unat_inc:
  fixes x :: size_t
  assumes "unat x + 1 < 2 ^ 64"
  shows "unat (x + 1) = unat x + 1"
  using assms by (simp add: unat_word_ariths)

lemma call_step_counts:
  assumes step: "call_step env a pc s = (pc', s', ev)"
    and pos: "counted pc \<longrightarrow> activeRequestCount s \<noteq> 0"
    and room: "\<not> counted pc \<longrightarrow> unat (activeRequestCount s) + 1 < 2 ^ 64"
  shows "config s' = config s
       \<and> unat (activeRequestCount s') + (if counted pc then 1 else 0)
           = unat (activeRequestCount s) + (if counted pc' then 1 else 0)
       \<and> (admitted pc' \<and> \<not> admitted pc \<longrightarrow>
            unat (activeRequestCount s) < unat (maxActiveRequests (config s)))"
proof -
  obtain n ctx cb where a: "a = (n, ctx, cb)" by (cases a)
  have dec: "unat (activeRequestCount s - 1) + 1 = unat (activeRequestCount s)"
    if "activeRequestCount s \<noteq> 0"
    using that unat_minus_one [of "activeRequestCount s"]
    by (simp add: unat_eq_zero [symmetric] del: unat_eq_zero)
  show ?thesis
  proof (cases pc)
    case (AtAdmission rid)
    with room have "unat (activeRequestCount s + 1) = unat (activeRequestCount s) + 1"
      by (simp add: unat_inc)
    with step a AtAdmission show ?thesis
      by (auto simp: Let_def word_le_nat_alt split: if_splits)
  next
    case (AtRefuseDecActive rid old)
    with pos dec step a show ?thesis by auto
  next
    case (AtCompletionDecActive rid err)
    with pos dec step a show ?thesis by auto
  next
    case (AtLookup rid)
    with step a show ?thesis by (auto split: option.splits)
  next
    case (AtForward rid)
    with step a show ?thesis by (auto simp: Let_def split: if_splits)
  qed (use step a in auto)
qed

lemma call_step_invariant:
  assumes step: "call_step env a (pcs ! i) s = (pc', s', ev)"
    and i: "i < length pcs" and n: "length pcs < 2 ^ 64"
    and inv: "admission_invariant s pcs"
  shows "config s' = config s \<and> admission_invariant s' (pcs[i := pc'])"
proof -
  let ?H = "length (filter counted pcs)" and ?A = "length (filter admitted pcs)"
  from inv have act: "unat (activeRequestCount s) = ?H"
    and adm: "?A \<le> unat (maxActiveRequests (config s))"
    by (simp_all add: admission_invariant_def)
  have pos: "counted (pcs ! i) \<longrightarrow> activeRequestCount s \<noteq> 0"
  proof
    assume "counted (pcs ! i)"
    with i have "0 < ?H" by (rule counted_positive)
    with act show "activeRequestCount s \<noteq> 0"
      by (auto simp: unat_eq_zero [symmetric] simp del: unat_eq_zero)
  qed
  have room: "\<not> counted (pcs ! i) \<longrightarrow> unat (activeRequestCount s) + 1 < 2 ^ 64"
  proof
    assume "\<not> counted (pcs ! i)"
    with i have "?H < length pcs" by (rule not_counted_less)
    with act n show "unat (activeRequestCount s) + 1 < 2 ^ 64" by simp
  qed
  note c = call_step_counts [OF step pos room]
  from c have cfg: "config s' = config s" by blast
  from c have a1: "unat (activeRequestCount s') + (if counted (pcs ! i) then 1 else 0)
           = unat (activeRequestCount s) + (if counted pc' then 1 else 0)"
    by blast
  from c have a2: "admitted pc' \<and> \<not> admitted (pcs ! i) \<longrightarrow>
            unat (activeRequestCount s) < unat (maxActiveRequests (config s))"
    by blast
  note h = filter_update_count [OF i, of counted pc']
  note a = filter_update_count [OF i, of admitted pc']
  from h a1 act have act': "unat (activeRequestCount s') = length (filter counted (pcs[i := pc']))"
    by (simp split: if_splits)
  have "length (filter admitted (pcs[i := pc'])) \<le> unat (maxActiveRequests (config s))"
  proof (cases "admitted pc' \<and> \<not> admitted (pcs ! i)")
    case True
    with a2 act have "?H < unat (maxActiveRequests (config s))" by simp
    with admitted_le_counted [of pcs] have "?A < unat (maxActiveRequests (config s))" by simp
    with a True show ?thesis by simp
  next
    case False
    with a adm show ?thesis by (auto split: if_splits)
  qed
  with act' cfg show ?thesis
    by (simp add: admission_invariant_def)
qed

lemma run_schedule_invariant:
  assumes "length pcs < 2 ^ 64" and "admission_invariant s pcs"
    and "run_schedule env args sched (s, pcs, tr) = (s', pcs', tr')"
  shows "config s' = config s \<and> admission_invariant s' pcs'"
  using assms
proof (induction sched arbitrary: s pcs tr)
  case Nil
  then show ?case by simp
next
  case (Cons i sched)
  show ?case
  proof (cases "i < length pcs \<and> i < length args")
    case False
    with Cons.prems(3) have "run_schedule env args sched (s, pcs, tr) = (s', pcs', tr')"
      by auto
    from Cons.IH [OF Cons.prems(1,2) this] show ?thesis .
  next
    case True
    obtain pc1 s1 ev1 where st: "call_step env (args ! i) (pcs ! i) s = (pc1, s1, ev1)"
      by (cases "call_step env (args ! i) (pcs ! i) s")
    with True Cons.prems(3)
    have r: "run_schedule env args sched (s1, pcs[i := pc1], tr @ map (Pair i) ev1) = (s', pcs', tr')"
      by simp
    from True have i: "i < length pcs" by simp
    note one = call_step_invariant [OF st i Cons.prems(1,2)]
    have "length (pcs[i := pc1]) < 2 ^ 64"
      using Cons.prems(1) by simp
    from Cons.IH [OF this one [THEN conjunct2] r] one show ?thesis
      by simp
  qed
qed

lemma initial_invariant:
  assumes "list_all (\<lambda>pc. pc = NotCalled) pcs" and "activeRequestCount s = 0"
  shows "admission_invariant s pcs"
proof -
  from assms(1) have "filter counted pcs = []" "filter admitted pcs = []"
    by (auto simp: list_all_iff filter_empty_conv)
  with assms(2) show ?thesis
    by (simp add: admission_invariant_def)
qed

lemma runNetwork_refused:
  assumes "map_of (networks s) networkName = Some nd"
    and "maxActiveRequests (config s) \<le> activeRequestCount s"
  shows "runNetwork env s networkName context callback =
     (totalRequestCount s, s\<lparr>totalRequestCount := totalRequestCount s + 1\<rparr>,
      [CallbackInvoked callback (totalRequestCount s)
         (Some (MAKE_ERR RUNTIME_REQUEST_REFUSED
            (''The number of allowed requests has been exceeded. active requests: ''
               @ to_string (unat (activeRequestCount s)) @ '' allowed requests: ''
               @ to_string (unat (maxActiveRequests (config s))))))
         context (s\<lparr>totalRequestCount := totalRequestCount s + 1\<rparr>)])"
proof -
  have u: "AList.update networkName (nd\<lparr>refcount := refcount nd + 1 - 1\<rparr>)
             (AList.update networkName (nd\<lparr>refcount := refcount nd + 1\<rparr>) (networks s))
           = networks s"
    using assms(1) by (simp add: update_triv)
  from assms u show ?thesis
    by (simp add: runNetwork_def Let_def update_refcount_def update_conv')
qed

lemma refusing_steps:
  assumes "refusing pc"
  shows "(refusing (fst (call_step env a pc s)) \<or> is_Finished (fst (call_step env a pc s)))
       \<and> executor_runs (snd (snd (call_step env a pc s))) = []
       \<and> executor (fst (snd (call_step env a pc s))) = executor s"
  using assms by (cases a; cases pc) simp_all

lemma admission_refuses:
  assumes "maxActiveRequests (config s) \<le> activeRequestCount s"
  shows "refusing (fst (call_step env a (AtAdmission currentRun) s))"
  using assms by (cases a) (simp add: Let_def)

lemma run_schedule_append:
  "run_schedule env args (a @ b) st = run_schedule env args b (run_schedule env args a st)"
proof (induction a arbitrary: st)
  case Nil
  show ?case by simp
next
  case (Cons i a)
  obtain s pcs tr where st: "st = (s, pcs, tr)" by (cases st)
  show ?case
    unfolding st using Cons.IH by (simp split: prod.splits)
qed

lemma call_step_config: "config (fst (snd (call_step env a pc s))) = config s"
  by (cases a; cases pc) (simp_all add: Let_def split: option.splits)

lemma events_of_Nil [simp]: "events_of i [] = []"
  by (simp add: events_of_def)

lemma events_of_append [simp]: "events_of i (xs @ ys) = events_of i xs @ events_of i ys"
  by (simp add: events_of_def)

lemma events_of_Pair [simp]: "events_of i (map (Pair j) ev) = (if j = i then ev else [])"
  by (simp add: events_of_def filter_map comp_def)

lemma invocations_append [simp]: "invocations (xs @ ys) = invocations xs @ invocations ys"
  by (induction xs rule: invocations.induct) simp_all

lemma executor_runs_append [simp]:
  "executor_runs (xs @ ys) = executor_runs xs @ executor_runs ys"
  by (induction xs rule: executor_runs.induct) simp_all

lemma refusal_point_step:
  "\<exists>ev. call_step env (n, ctx, cb) (refusal_point r old k) s
           = (refusal_point r old (Suc k), fst (snd (call_step env (n, ctx, cb) (refusal_point r old k) s)), ev)
     \<and> executor_runs ev = []
     \<and> invocations ev =
         (if k = 2
          then [(cb, r,
                 Some (MAKE_ERR RUNTIME_REQUEST_REFUSED
                   (''The number of allowed requests has been exceeded. active requests: ''
                      @ to_string (unat old) @ '' allowed requests: ''
                      @ to_string (unat (maxActiveRequests (config s))))),
                 ctx)]
          else [])"
proof -
  consider "k = 0" | "k = Suc 0" | "k = Suc (Suc 0)" | j where "k = Suc (Suc (Suc j))"
    by (metis not0_implies_Suc)
  then show ?thesis
    by cases (simp_all add: numeral_2_eq_2)
qed

lemma refusal_run:
  assumes "run_schedule env args sched (s, pcs, tr) = (s', pcs', tr')"
    and "i < length pcs" and "i < length args" and "args ! i = (n, ctx, cb)"
    and "pcs ! i = refusal_point r old k"
  shows "pcs' ! i = refusal_point r old (k + count_list sched i)
       \<and> executor_runs (events_of i tr') = executor_runs (events_of i tr)
       \<and> invocations (events_of i tr') =
           invocations (events_of i tr) @
           (if k < 3 \<and> 3 \<le> k + count_list sched i
            then [(cb, r,
                   Some (MAKE_ERR RUNTIME_REQUEST_REFUSED
                     (''The number of allowed requests has been exceeded. active requests: ''
                        @ to_string (unat old) @ '' allowed requests: ''
                        @ to_string (unat (maxActiveRequests (config s))))),
                   ctx)]
            else [])"
  using assms
proof (induction sched arbitrary: s pcs tr k)
  case Nil
  then show ?case by simp
next
  case (Cons j sched)
  show ?case
  proof (cases "j < length pcs \<and> j < length args")
    case False
    with Cons.prems(1) have "run_schedule env args sched (s, pcs, tr) = (s', pcs', tr')"
      by auto
    from Cons.IH [OF this Cons.prems(2,3,4,5)] False Cons.prems(2,3) show ?thesis
      by auto
  next
    case True
    obtain pc1 s1 ev1 where st: "call_step env (args ! j) (pcs ! j) s = (pc1, s1, ev1)"
      by (cases "call_step env (args ! j) (pcs ! j) s")
    with True Cons.prems(1)
    have r: "run_schedule env args sched (s1, pcs[j := pc1], tr @ map (Pair j) ev1) = (s', pcs', tr')"
      by simp
    have cfg: "config s1 = config s"
      using call_step_config [of env "args ! j" "pcs ! j" s] st by simp
    have len: "i < length (pcs[j := pc1])" using Cons.prems(2) by simp
    show ?thesis
    proof (cases "j = i")
      case False
      with Cons.prems(5) have "pcs[j := pc1] ! i = refusal_point r old k" by simp
      from Cons.IH [OF r len Cons.prems(3,4) this] False cfg show ?thesis
        by simp
    next
      case True
      from refusal_point_step [of env n ctx cb r old k s] st True Cons.prems(4,5)
      have pc1: "pc1 = refusal_point r old (Suc k)"
        and er: "executor_runs ev1 = []"
        and iv: "invocations ev1 =
         (if k = 2
          then [(cb, r,
                 Some (MAKE_ERR RUNTIME_REQUEST_REFUSED
                   (''The number of allowed requests has been exceeded. active requests: ''
                      @ to_string (unat old) @ '' allowed requests: ''
                      @ to_string (unat (maxActiveRequests (config s))))),
                 ctx)]
          else [])"
        by auto
      from pc1 Cons.prems(2) True have "pcs[j := pc1] ! i = refusal_point r old (Suc k)"
        by simp
      from Cons.IH [OF r len Cons.prems(3,4) this] True er iv cfg show ?thesis
        by (auto split: if_splits)
    qed
  qed
qed


lemma before_events_step:
  assumes "call_step env a pc s = (pc', s', ev)" and "before_events pc'"
  shows "before_events pc \<and> ev = []"
  using assms by (cases a; cases pc) (auto simp: Let_def split: option.splits if_splits)

lemma run_schedule_before_events:
  assumes "run_schedule env args sched (s, pcs, tr) = (s', pcs', tr')"
    and "\<forall>i < length pcs. before_events (pcs ! i) \<longrightarrow> events_of i tr = []"
  shows "length pcs' = length pcs
       \<and> (\<forall>i < length pcs'. before_events (pcs' ! i) \<longrightarrow> events_of i tr' = [])"
  using assms
proof (induction sched arbitrary: s pcs tr)
  case Nil
  then show ?case by simp
next
  case (Cons j sched)
  show ?case
  proof (cases "j < length pcs \<and> j < length args")
    case False
    with Cons.prems(1) have "run_schedule env args sched (s, pcs, tr) = (s', pcs', tr')"
      by auto
    from Cons.IH [OF this Cons.prems(2)] show ?thesis .
  next
    case True
    obtain pc1 s1 ev1 where st: "call_step env (args ! j) (pcs ! j) s = (pc1, s1, ev1)"
      by (cases "call_step env (args ! j) (pcs ! j) s")
    with True Cons.prems(1)
    have r: "run_schedule env args sched (s1, pcs[j := pc1], tr @ map (Pair j) ev1) = (s', pcs', tr')"
      by simp
    have "\<forall>i < length (pcs[j := pc1]).
            before_events (pcs[j := pc1] ! i) \<longrightarrow> events_of i (tr @ map (Pair j) ev1) = []"
    proof (intro allI impI)
      fix i
      assume i: "i < length (pcs[j := pc1])" and b: "before_events (pcs[j := pc1] ! i)"
      show "events_of i (tr @ map (Pair j) ev1) = []"
      proof (cases "j = i")
        case False
        with i b Cons.prems(2) show ?thesis by simp
      next
        case True
        with i b have "before_events pc1" by simp
        from before_events_step [OF st this] True i Cons.prems(2) show ?thesis
          by simp
      qed
    qed
    from Cons.IH [OF r this] show ?thesis by simp
  qed
qed

lemma references_update:
  assumes "i < length pcs" and "i < length args"
  shows "references (pcs[i := pc']) args n
           + (if fst (args ! i) = n \<and> holds_reference (pcs ! i) then 1 else 0)
       = references pcs args n
           + (if fst (args ! i) = n \<and> holds_reference pc' then 1 else 0)"
proof -
  let ?P = "\<lambda>(pc, a). fst a = n \<and> holds_reference pc"
  have z: "zip (pcs[i := pc']) args = (zip pcs args)[i := (pc', args ! i)]"
    by (simp add: update_zip)
  from assms have l: "i < length (zip pcs args)" by simp
  from filter_update_count [OF l, of ?P "(pc', args ! i)"] assms show ?thesis
    by (simp add: references_def z)
qed

lemma call_step_networks:
  "networks (fst (snd (call_step env (n, ctx, cb) pc s))) =
     networks (case pc of
        AtLookup r \<Rightarrow> update_refcount n (\<lambda>r. r + 1) s
      | AtRefuseDecRef r old \<Rightarrow> update_refcount n (\<lambda>r. r - 1) s
      | AtCompletionDecRef r err \<Rightarrow> update_refcount n (\<lambda>r. r - 1) s
      | _ \<Rightarrow> s)"
  by (cases pc) (simp_all add: Let_def update_refcount_def split: option.splits)

lemma call_step_references:
  assumes step: "call_step env (args ! i) (pcs ! i) s = (pc', s', ev)"
    and i: "i < length pcs" "i < length args"
    and inv: "map_of (networks s) n = Some (nd0\<lparr>refcount := refcount nd0 + of_nat (references pcs args n)\<rparr>)"
  shows "map_of (networks s') n =
           Some (nd0\<lparr>refcount := refcount nd0 + of_nat (references (pcs[i := pc']) args n)\<rparr>)"
proof -
  obtain m ctx cb where a: "args ! i = (m, ctx, cb)" by (cases "args ! i")
  note u = references_update [OF i, of pc' n]
  from step a have n': "networks s' = networks (fst (snd (call_step env (m, ctx, cb) (pcs ! i) s)))"
    by simp
  show ?thesis
  proof (cases "m = n")
    case False
    with u a have "references (pcs[i := pc']) args n = references pcs args n" by simp
    moreover from False have "map_of (networks s') n = map_of (networks s) n"
      unfolding n' call_step_networks
      by (cases "pcs ! i") (simp_all add: map_of_update_refcount)
    ultimately show ?thesis using inv by simp
  next
    case True
    show ?thesis
    proof (cases "pcs ! i")
      case (AtLookup r)
      with step a True inv have "pc' = AtAdmission r" by auto
      with u a True AtLookup
      have "references (pcs[i := pc']) args n = references pcs args n + 1" by simp
      with inv True AtLookup show ?thesis
        unfolding n' call_step_networks by (simp add: map_of_update_refcount)
    next
      case (AtRefuseDecRef r old)
      with step a have "pc' = AtRefuseCallback r old" by auto
      with u a True AtRefuseDecRef
      have "references pcs args n = references (pcs[i := pc']) args n + 1" by simp
      with inv True AtRefuseDecRef show ?thesis
        unfolding n' call_step_networks by (simp add: map_of_update_refcount)
    next
      case (AtCompletionDecRef r err)
      with step a have "pc' = AtCompletionCallback r err" by auto
      with u a True AtCompletionDecRef
      have "references pcs args n = references (pcs[i := pc']) args n + 1" by simp
      with inv True AtCompletionDecRef show ?thesis
        unfolding n' call_step_networks by (simp add: map_of_update_refcount)
    next
      case NotCalled
      with step a have "pc' = AtLookup (totalRequestCount s)" by auto
      with u NotCalled have "references (pcs[i := pc']) args n = references pcs args n" by simp
      with inv NotCalled show ?thesis unfolding n' call_step_networks by simp
    next
      case (AtNotFound r)
      with step a have "pc' = Finished r" by auto
      with u AtNotFound have "references (pcs[i := pc']) args n = references pcs args n" by simp
      with inv AtNotFound show ?thesis unfolding n' call_step_networks by simp
    next
      case (AtAdmission r)
      with step a have "holds_reference pc'" by (auto simp: Let_def split: if_splits)
      with u AtAdmission have "references (pcs[i := pc']) args n = references pcs args n" by simp
      with inv AtAdmission show ?thesis unfolding n' call_step_networks by simp
    next
      case (AtRefuseDecActive r old)
      with step a have "pc' = AtRefuseDecRef r old" by auto
      with u AtRefuseDecActive have "references (pcs[i := pc']) args n = references pcs args n" by simp
      with inv AtRefuseDecActive show ?thesis unfolding n' call_step_networks by simp
    next
      case (AtRefuseCallback r old)
      with step a have "pc' = Finished r" by auto
      with u AtRefuseCallback have "references (pcs[i := pc']) args n = references pcs args n" by simp
      with inv AtRefuseCallback show ?thesis unfolding n' call_step_networks by simp
    next
      case (AtForward r)
      with step a have "holds_reference pc'" by (auto simp: Let_def split: if_splits)
      with u AtForward have "references (pcs[i := pc']) args n = references pcs args n" by simp
      with inv AtForward show ?thesis unfolding n' call_step_networks by simp
    next
      case (InExecutor r)
      with step a have "holds_reference pc'" by auto
      with u InExecutor have "references (pcs[i := pc']) args n = references pcs args n" by simp
      with inv InExecutor show ?thesis unfolding n' call_step_networks by simp
    next
      case (AtCompletionCallback r err)
      with step a have "pc' = AtCompletionDecActive r err" by auto
      with u AtCompletionCallback have "references (pcs[i := pc']) args n = references pcs args n" by simp
      with inv AtCompletionCallback show ?thesis unfolding n' call_step_networks by simp
    next
      case (AtCompletionDecActive r err)
      with step a have "pc' = Finished r" by auto
      with u AtCompletionDecActive have "references (pcs[i := pc']) args n = references pcs args n" by simp
      with inv AtCompletionDecActive show ?thesis unfolding n' call_step_networks by simp
    next
      case (Finished r)
      with step a have "pc' = Finished r" by auto
      with u Finished have "references (pcs[i := pc']) args n = references pcs args n" by simp
      with inv Finished show ?thesis unfolding n' call_step_networks by simp
    qed
  qed
qed

lemma run_schedule_references:
  assumes "run_schedule env args sched (s, pcs, tr) = (s', pcs', tr')"
    and "map_of (networks s) n = Some (nd0\<lparr>refcount := refcount nd0 + of_nat (references pcs args n)\<rparr>)"
  shows "map_of (networks s') n =
           Some (nd0\<lparr>refcount := refcount nd0 + of_nat (references pcs' args n)\<rparr>)"
  using assms
proof (induction sched arbitrary: s pcs tr)
  case Nil
  then show ?case by simp
next
  case (Cons j sched)
  show ?case
  proof (cases "j < length pcs \<and> j < length args")
    case False
    with Cons.prems(1) have "run_schedule env args sched (s, pcs, tr) = (s', pcs', tr')"
      by auto
    from Cons.IH [OF this Cons.prems(2)] show ?thesis .
  next
    case True
    obtain pc1 s1 ev1 where st: "call_step env (args ! j) (pcs ! j) s = (pc1, s1, ev1)"
      by (cases "call_step env (args ! j) (pcs ! j) s")
    with True Cons.prems(1)
    have r: "run_schedule env args sched (s1, pcs[j := pc1], tr @ map (Pair j) ev1) = (s', pcs', tr')"
      by simp
    from True have j: "j < length pcs" "j < length args" by simp_all
    from Cons.IH [OF r call_step_references [OF st j Cons.prems(2)]] show ?thesis .
  qed
qed

lemma initial_references:
  assumes "list_all (\<lambda>pc. pc = NotCalled) pcs"
  shows "references pcs args n = 0"
proof -
  have "\<not> holds_reference pc" if "(pc, a) \<in> set (zip pcs args)" for pc a
  proof -
    from that have "pc \<in> set pcs" by (rule set_zip_leftD)
    with assms have "pc = NotCalled" by (simp add: list_all_iff)
    then show ?thesis by simp
  qed
  then show ?thesis
    by (auto simp: references_def filter_empty_conv)
qed

lemma runNetwork_uninterrupted:
  "\<exists>sched pc. set sched \<subseteq> {0}
     \<and> run_schedule env [(networkName, context, callback)] sched (s, [NotCalled], [])
         = (fst (snd (runNetwork env s networkName context callback)), [pc],
            map (Pair 0) (snd (snd (runNetwork env s networkName context callback))))
     \<and> (pc = Finished (fst (runNetwork env s networkName context callback))
        \<or> pc = InExecutor (fst (runNetwork env s networkName context callback)))"
proof (cases "map_of (networks s) networkName")
  case None
  then have "run_schedule env [(networkName, context, callback)] [0, 0, 0] (s, [NotCalled], [])
         = (fst (snd (runNetwork env s networkName context callback)),
            [Finished (fst (runNetwork env s networkName context callback))],
            map (Pair 0) (snd (snd (runNetwork env s networkName context callback))))"
    by (simp add: runNetwork_def Let_def)
  then show ?thesis
    by (intro exI [of _ "[0, 0, 0]"] exI [of _ "Finished (fst (runNetwork env s networkName context callback))"])
       simp
next
  case (Some nd)
  show ?thesis
  proof (cases "maxActiveRequests (config s) \<le> activeRequestCount s")
    case True
    have u: "AList.update networkName (nd\<lparr>refcount := refcount nd + 1 - 1\<rparr>)
             (AList.update networkName (nd\<lparr>refcount := refcount nd + 1\<rparr>) (networks s))
           = networks s"
      using Some by (simp add: update_triv)
    from Some True u
    have "run_schedule env [(networkName, context, callback)] [0, 0, 0, 0, 0, 0] (s, [NotCalled], [])
         = (fst (snd (runNetwork env s networkName context callback)),
            [Finished (fst (runNetwork env s networkName context callback))],
            map (Pair 0) (snd (snd (runNetwork env s networkName context callback))))"
      by (simp add: runNetwork_refused Let_def update_refcount_def update_conv')
    then show ?thesis
      by (intro exI [of _ "[0, 0, 0, 0, 0, 0]"]
          exI [of _ "Finished (fst (runNetwork env s networkName context callback))"]) simp
  next
    case False
    show ?thesis
    proof (cases "shuttingDown (executor s)")
      case False
      with Some \<open>\<not> maxActiveRequests (config s) \<le> activeRequestCount s\<close>
      have "run_schedule env [(networkName, context, callback)] [0, 0, 0, 0] (s, [NotCalled], [])
         = (fst (snd (runNetwork env s networkName context callback)),
            [InExecutor (fst (runNetwork env s networkName context callback))],
            map (Pair 0) (snd (snd (runNetwork env s networkName context callback))))"
        by (simp add: runNetwork_def Executor_run_def Let_def update_refcount_def update_conv')
      then show ?thesis
        by (intro exI [of _ "[0, 0, 0, 0]"]
            exI [of _ "InExecutor (fst (runNetwork env s networkName context callback))"]) simp
    next
      case True
      with Some \<open>\<not> maxActiveRequests (config s) \<le> activeRequestCount s\<close>
      have "run_schedule env [(networkName, context, callback)] [0, 0, 0, 0, 0, 0, 0] (s, [NotCalled], [])
         = (fst (snd (runNetwork env s networkName context callback)),
            [Finished (fst (runNetwork env s networkName context callback))],
            map (Pair 0) (snd (snd (runNetwork env s networkName context callback))))"
        by (simp add: runNetwork_def Executor_run_def runNetwork_callback_def Let_def
            update_refcount_def update_conv')
      then show ?thesis
        by (intro exI [of _ "[0, 0, 0, 0, 0, 0, 0]"]
            exI [of _ "Finished (fst (runNetwork env s networkName context callback))"]) simp
    qed
  qed
qed


text \<open>
  C1. However the atomic steps of any number of concurrent \<open>runNetwork\<close> calls (fewer
  than \<open>2 ^ 64\<close>) interleave on an orchestrator with no request active:
  \<^item> the number of calls past admission and not yet completed never exceeds
    \<open>config_.maxActiveRequests\<close>;
  \<^item> the active request count is the number of calls between their increment and their
    decrement, and the reference count of every network is its value at the start plus
    the number of calls on that network between the \<open>refcount++\<close> of their lookup and
    their \<open>refcount--\<close>;
  \<^item> a call that takes its admission step when the active request count is at the
    maximum goes through the refusal steps only, whatever the other calls do in between:
    after one further step of its own it is no longer counted in the active request
    count, after two it no longer holds a reference on its network (both counters were
    decremented back, other calls' increments left as they are), and after three it is
    finished; its callback is invoked once it has taken the three steps, exactly once,
    with its Run Identifier, the \<open>RUNTIME_REQUEST_REFUSED\<close> error naming the count that it
    read and the maximum, and its context; and no event of the call, from its start, is a
    call of the Executor.

  On its own such a call is \<open>runNetwork\<close> of the source: called with the active request
  count at the maximum, \<open>runNetwork\<close> leaves the orchestrator as it found it but for the
  request counter, and invokes the callback with the \<open>RUNTIME_REQUEST_REFUSED\<close> error; and
  the atomic steps of a single call, run without interruption, give the state and the
  events of \<open>runNetwork\<close>. Each refusal step leaves the Executor as it is.
\<close>

theorem admission_bound:
  "(list_all (\<lambda>pc. pc = NotCalled) pcs0 \<and> activeRequestCount s0 = 0 \<and> length pcs0 < 2 ^ 64 \<longrightarrow>
      (\<forall>sched s pcs tr. run_schedule env args sched (s0, pcs0, []) = (s, pcs, tr) \<longrightarrow>
          length (filter admitted pcs) \<le> unat (maxActiveRequests (config s0))
          \<and> unat (activeRequestCount s) = length (filter counted pcs)
          \<and> (\<forall>n nd0. map_of (networks s0) n = Some nd0 \<longrightarrow>
                map_of (networks s) n =
                  Some (nd0\<lparr>refcount := refcount nd0 + of_nat (references pcs args n)\<rparr>))
          \<and> (\<forall>i n ctx cb r sched' s' pcs' tr'.
                i < length pcs \<and> i < length args \<and> args ! i = (n, ctx, cb)
                \<and> pcs ! i = AtAdmission r
                \<and> maxActiveRequests (config s) \<le> activeRequestCount s
                \<and> run_schedule env args (i # sched') (s, pcs, tr) = (s', pcs', tr') \<longrightarrow>
                  pcs' ! i = refusal_point r (activeRequestCount s) (count_list sched' i)
                  \<and> executor_runs (events_of i tr') = []
                  \<and> invocations (events_of i tr') =
                      (if 3 \<le> count_list sched' i
                       then [(cb, r,
                              Some (MAKE_ERR RUNTIME_REQUEST_REFUSED
                                (''The number of allowed requests has been exceeded. active requests: ''
                                   @ to_string (unat (activeRequestCount s))
                                   @ '' allowed requests: ''
                                   @ to_string (unat (maxActiveRequests (config s0))))),
                              ctx)]
                       else [])
                  \<and> unat (activeRequestCount s') = length (filter counted pcs')
                  \<and> (\<forall>m nd0. map_of (networks s0) m = Some nd0 \<longrightarrow>
                        map_of (networks s') m =
                          Some (nd0\<lparr>refcount := refcount nd0 + of_nat (references pcs' args m)\<rparr>)))))
   \<and> (\<forall>nd. map_of (networks s1) networkName = Some nd
          \<and> maxActiveRequests (config s1) \<le> activeRequestCount s1 \<longrightarrow>
        runNetwork env s1 networkName context callback =
          (totalRequestCount s1, s1\<lparr>totalRequestCount := totalRequestCount s1 + 1\<rparr>,
           [CallbackInvoked callback (totalRequestCount s1)
              (Some (MAKE_ERR RUNTIME_REQUEST_REFUSED
                 (''The number of allowed requests has been exceeded. active requests: ''
                    @ to_string (unat (activeRequestCount s1)) @ '' allowed requests: ''
                    @ to_string (unat (maxActiveRequests (config s1))))))
              context (s1\<lparr>totalRequestCount := totalRequestCount s1 + 1\<rparr>)]))
   \<and> (\<exists>sched pc. set sched \<subseteq> {0}
        \<and> run_schedule env [(networkName, context, callback)] sched (s1, [NotCalled], [])
            = (fst (snd (runNetwork env s1 networkName context callback)), [pc],
               map (Pair 0) (snd (snd (runNetwork env s1 networkName context callback))))
        \<and> (pc = Finished (fst (runNetwork env s1 networkName context callback))
           \<or> pc = InExecutor (fst (runNetwork env s1 networkName context callback))))
   \<and> (\<forall>a currentRun s2. maxActiveRequests (config s2) \<le> activeRequestCount s2 \<longrightarrow>
        refusing (fst (call_step env a (AtAdmission currentRun) s2)))
   \<and> (\<forall>a pc s2. refusing pc \<longrightarrow>
        (refusing (fst (call_step env a pc s2)) \<or> is_Finished (fst (call_step env a pc s2)))
        \<and> executor_runs (snd (snd (call_step env a pc s2))) = []
        \<and> executor (fst (snd (call_step env a pc s2))) = executor s2)"
proof (intro conjI impI allI)
  fix sched s pcs tr
  assume h: "list_all (\<lambda>pc. pc = NotCalled) pcs0 \<and> activeRequestCount s0 = 0 \<and> length pcs0 < 2 ^ 64"
    and r: "run_schedule env args sched (s0, pcs0, []) = (s, pcs, tr)"
  from h have i: "admission_invariant s0 pcs0"
    by (simp add: initial_invariant)
  from h have n: "length pcs0 < 2 ^ 64" by simp
  from run_schedule_invariant [OF n i r]
  show "length (filter admitted pcs) \<le> unat (maxActiveRequests (config s0))"
    and "unat (activeRequestCount s) = length (filter counted pcs)"
    by (auto simp: admission_invariant_def)
next
  fix sched s pcs tr n nd0
  assume h: "list_all (\<lambda>pc. pc = NotCalled) pcs0 \<and> activeRequestCount s0 = 0 \<and> length pcs0 < 2 ^ 64"
    and r: "run_schedule env args sched (s0, pcs0, []) = (s, pcs, tr)"
    and m: "map_of (networks s0) n = Some nd0"
  from h m have "map_of (networks s0) n =
      Some (nd0\<lparr>refcount := refcount nd0 + of_nat (references pcs0 args n)\<rparr>)"
    by (simp add: initial_references)
  from run_schedule_references [OF r this]
  show "map_of (networks s) n =
      Some (nd0\<lparr>refcount := refcount nd0 + of_nat (references pcs args n)\<rparr>)" .
next
  fix sched s pcs tr i n ctx cb r sched' s' pcs' tr'
  assume h: "list_all (\<lambda>pc. pc = NotCalled) pcs0 \<and> activeRequestCount s0 = 0 \<and> length pcs0 < 2 ^ 64"
    and r: "run_schedule env args sched (s0, pcs0, []) = (s, pcs, tr)"
    and c: "i < length pcs \<and> i < length args \<and> args ! i = (n, ctx, cb)
                \<and> pcs ! i = AtAdmission r
                \<and> maxActiveRequests (config s) \<le> activeRequestCount s
                \<and> run_schedule env args (i # sched') (s, pcs, tr) = (s', pcs', tr')"
  from h have inv0: "admission_invariant s0 pcs0"
    by (simp add: initial_invariant)
  from h have len0: "length pcs0 < 2 ^ 64" by simp
  from run_schedule_invariant [OF len0 inv0 r] have cfg: "config s = config s0" by simp
  from h have "\<forall>i < length pcs0. before_events (pcs0 ! i) \<longrightarrow> events_of i [] = []"
    by simp
  from run_schedule_before_events [OF r this] c have quiet: "events_of i tr = []"
    by simp
  let ?s1 = "s\<lparr>activeRequestCount := activeRequestCount s + 1\<rparr>"
  from c have li0: "i < length pcs" and la: "i < length args" and ai: "args ! i = (n, ctx, cb)"
    and pi: "pcs ! i = AtAdmission r"
    and full: "maxActiveRequests (config s) \<le> activeRequestCount s"
    and run1: "run_schedule env args (i # sched') (s, pcs, tr) = (s', pcs', tr')"
    by (simp_all only:)
  from li0 la ai pi full
  have "call_step env (args ! i) (pcs ! i) s =
      (refusal_point r (activeRequestCount s) 0, ?s1, [])"
    by (simp add: Let_def)
  with li0 la run1 have run': "run_schedule env args sched'
      (?s1, pcs[i := refusal_point r (activeRequestCount s) 0], tr) = (s', pcs', tr')"
    by simp
  have at: "pcs[i := refusal_point r (activeRequestCount s) 0] ! i
      = refusal_point r (activeRequestCount s) 0"
    using c by simp
  have li: "i < length (pcs[i := refusal_point r (activeRequestCount s) 0])"
    using c by simp
  note rr = refusal_run [OF run' li la ai at]
  from rr show "pcs' ! i = refusal_point r (activeRequestCount s) (count_list sched' i)"
    by simp
  from rr quiet show "executor_runs (events_of i tr') = []"
    by simp
  from rr quiet cfg show "invocations (events_of i tr') =
                      (if 3 \<le> count_list sched' i
                       then [(cb, r,
                              Some (MAKE_ERR RUNTIME_REQUEST_REFUSED
                                (''The number of allowed requests has been exceeded. active requests: ''
                                   @ to_string (unat (activeRequestCount s))
                                   @ '' allowed requests: ''
                                   @ to_string (unat (maxActiveRequests (config s0))))),
                              ctx)]
                       else [])"
    by simp
  from r c have whole: "run_schedule env args (sched @ i # sched') (s0, pcs0, []) = (s', pcs', tr')"
    by (simp only: run_schedule_append)
  from run_schedule_invariant [OF len0 inv0 whole]
  show "unat (activeRequestCount s') = length (filter counted pcs')"
    by (simp add: admission_invariant_def)
  show "map_of (networks s') m =
      Some (nd0\<lparr>refcount := refcount nd0 + of_nat (references pcs' args m)\<rparr>)"
    if m: "map_of (networks s0) m = Some nd0" for m nd0
  proof -
    from h m have "map_of (networks s0) m =
        Some (nd0\<lparr>refcount := refcount nd0 + of_nat (references pcs0 args m)\<rparr>)"
      by (simp add: initial_references)
    from run_schedule_references [OF whole this] show ?thesis .
  qed
next
  fix nd
  assume "map_of (networks s1) networkName = Some nd
          \<and> maxActiveRequests (config s1) \<le> activeRequestCount s1"
  then show "runNetwork env s1 networkName context callback =
          (totalRequestCount s1, s1\<lparr>totalRequestCount := totalRequestCount s1 + 1\<rparr>,
           [CallbackInvoked callback (totalRequestCount s1)
              (Some (MAKE_ERR RUNTIME_REQUEST_REFUSED
                 (''The number of allowed requests has been exceeded. active requests: ''
                    @ to_string (unat (activeRequestCount s1)) @ '' allowed requests: ''
                    @ to_string (unat (maxActiveRequests (config s1))))))
              context (s1\<lparr>totalRequestCount := totalRequestCount s1 + 1\<rparr>)])"
    by (simp add: runNetwork_refused)
next
  show "\<exists>sched pc. set sched \<subseteq> {0}
        \<and> run_schedule env [(networkName, context, callback)] sched (s1, [NotCalled], [])
            = (fst (snd (runNetwork env s1 networkName context callback)), [pc],
               map (Pair 0) (snd (snd (runNetwork env s1 networkName context callback))))
        \<and> (pc = Finished (fst (runNetwork env s1 networkName context callback))
           \<or> pc = InExecutor (fst (runNetwork env s1 networkName context callback)))"
    by (rule runNetwork_uninterrupted)
next
  fix a currentRun and s2 :: HostManager
  assume "maxActiveRequests (config s2) \<le> activeRequestCount s2"
  then show "refusing (fst (call_step env a (AtAdmission currentRun) s2))"
    by (rule admission_refuses)
next
  fix a pc and s2 :: HostManager
  assume "refusing pc"
  from refusing_steps [OF this, of env a s2]
  show "refusing (fst (call_step env a pc s2)) \<or> is_Finished (fst (call_step env a pc s2))"
    and "executor_runs (snd (snd (call_step env a pc s2))) = []"
    and "executor (fst (snd (call_step env a pc s2))) = executor s2"
    by simp_all
qed

theorem admission_bound_witness:
  "list_all (\<lambda>pc. pc = NotCalled) [NotCalled, NotCalled]
   \<and> activeRequestCount (host0 0 0) = 0
   \<and> length [NotCalled, NotCalled] < (2::nat) ^ 64
   \<and> (\<exists>s tr s' tr'.
        run_schedule env0 args0 sched0 (host0 0 0, [NotCalled, NotCalled], [])
          = (s, [AtForward 5, AtAdmission 6], tr)
        \<and> length (filter admitted [AtForward 5, AtAdmission 6])
             \<le> unat (maxActiveRequests (config (host0 0 0)))
        \<and> unat (activeRequestCount s) = length (filter counted [AtForward 5, AtAdmission 6])
        \<and> map_of (networks s) ''net'' = Some (net0 2)
        \<and> args0 ! 1 = (''net'', 2, 11)
        \<and> maxActiveRequests (config s) \<le> activeRequestCount s
        \<and> run_schedule env0 args0 (1 # sched1) (s, [AtForward 5, AtAdmission 6], tr)
          = (s', [InExecutor 5, Finished 6], tr')
        \<and> count_list sched1 1 = 3
        \<and> executor_runs (events_of 1 tr') = []
        \<and> invocations (events_of 1 tr') =
             [(11, 6,
               Some (MAKE_ERR RUNTIME_REQUEST_REFUSED
                 (''The number of allowed requests has been exceeded. active requests: ''
                    @ to_string (unat (activeRequestCount s)) @ '' allowed requests: ''
                    @ to_string (unat (maxActiveRequests (config (host0 0 0)))))),
               2)]
        \<and> activeRequestCount s = 1
        \<and> unat (activeRequestCount s') = length (filter counted [InExecutor 5, Finished 6])
        \<and> map_of (networks s') ''net'' = Some (net0 1))
   \<and> map_of (networks (host0 1 1)) ''net'' = Some (net0 1)
   \<and> maxActiveRequests (config (host0 1 1)) \<le> activeRequestCount (host0 1 1)
   \<and> runNetwork env0 (host0 1 1) ''net'' 2 11 =
        (5, (host0 1 1)\<lparr>totalRequestCount := 6\<rparr>,
         [CallbackInvoked 11 5
            (Some (MAKE_ERR RUNTIME_REQUEST_REFUSED
               (''The number of allowed requests has been exceeded. active requests: ''
                  @ to_string (unat (activeRequestCount (host0 1 1))) @ '' allowed requests: ''
                  @ to_string (unat (maxActiveRequests (config (host0 1 1)))))))
            2 ((host0 1 1)\<lparr>totalRequestCount := 6\<rparr>)])
   \<and> refusing (fst (call_step env0 (''net'', 2, 11) (AtAdmission 6) (host0 1 1)))
   \<and> refusing (AtRefuseDecRef 6 1)
   \<and> executor_runs (snd (snd (call_step env0 (''net'', 2, 11) (AtRefuseDecRef 6 1) (host0 2 1)))) = []"
proof -
  have a: "list_all (\<lambda>pc. pc = NotCalled) [NotCalled, NotCalled]
     \<and> activeRequestCount (host0 0 0) = 0 \<and> length [NotCalled, NotCalled] < (2::nat) ^ 64"
    by (simp add: host0_simps)
  obtain s pcs tr where
    r: "run_schedule env0 args0 sched0 (host0 0 0, [NotCalled, NotCalled], []) = (s, pcs, tr)"
    by (cases "run_schedule env0 args0 sched0 (host0 0 0, [NotCalled, NotCalled], [])")
  with run_sched0 have p: "pcs = [AtForward 5, AtAdmission 6]" and act: "activeRequestCount s = 1"
    by simp_all
  obtain s' pcs' tr' where
    r': "run_schedule env0 args0 (1 # sched1) (s, pcs, tr) = (s', pcs', tr')"
    by (cases "run_schedule env0 args0 (1 # sched1) (s, pcs, tr)")
  from r r' have "run_schedule env0 args0 (sched0 @ 1 # sched1) (host0 0 0, [NotCalled, NotCalled], [])
      = (s', pcs', tr')"
    by (simp only: run_schedule_append)
  with run_sched1 have p': "pcs' = [InExecutor 5, Finished 6]" by simp
  note t = admission_bound [of "[NotCalled, NotCalled]" "host0 0 0" env0 args0 "host0 1 1" "''net''" 2 11]
  note t1 = t [THEN conjunct1, rule_format, OF a r]
  from t1 have b: "length (filter admitted pcs) \<le> unat (maxActiveRequests (config (host0 0 0)))
      \<and> unat (activeRequestCount s) = length (filter counted pcs)"
    by blast
  have n0: "map_of (networks (host0 0 0)) ''net'' = Some (net0 0)"
    by (simp add: host0_simps)
  from t1 n0 have "map_of (networks s) ''net'' =
      Some ((net0 0)\<lparr>refcount := refcount (net0 0) + of_nat (references pcs args0 ''net'')\<rparr>)"
    by blast
  then have rc: "map_of (networks s) ''net'' = Some (net0 2)"
    by (simp add: p references_def args0_def net0_def)
  from r run_sched0 have mx: "maxActiveRequests (config s) = 1" by simp
  with act have full: "maxActiveRequests (config s) \<le> activeRequestCount s" by simp
  have ai: "args0 ! 1 = (''net'', 2, 11)" by (simp add: args0_def)
  have cnt: "count_list sched1 1 = 3" by (simp add: sched1_def)
  have c: "1 < length pcs \<and> 1 < length args0 \<and> args0 ! 1 = (''net'', 2, 11)
      \<and> pcs ! 1 = AtAdmission 6
      \<and> maxActiveRequests (config s) \<le> activeRequestCount s
      \<and> run_schedule env0 args0 (1 # sched1) (s, pcs, tr) = (s', pcs', tr')"
    using p ai full r' by (simp add: args0_def)
  note t2 = t1 [THEN conjunct2, THEN conjunct2, THEN conjunct2, rule_format, OF c]
  from t2 cnt have e1: "executor_runs (events_of 1 tr') = []"
    and e2: "invocations (events_of 1 tr') =
             [(11, 6,
               Some (MAKE_ERR RUNTIME_REQUEST_REFUSED
                 (''The number of allowed requests has been exceeded. active requests: ''
                    @ to_string (unat (activeRequestCount s)) @ '' allowed requests: ''
                    @ to_string (unat (maxActiveRequests (config (host0 0 0)))))),
               2)]"
    and e3: "unat (activeRequestCount s') = length (filter counted pcs')"
    by simp_all
  from t2 n0 have "map_of (networks s') ''net'' =
      Some ((net0 0)\<lparr>refcount := refcount (net0 0) + of_nat (references pcs' args0 ''net'')\<rparr>)"
    by blast
  then have rc': "map_of (networks s') ''net'' = Some (net0 1)"
    by (simp add: p' references_def args0_def net0_def)
  have c1: "map_of (networks (host0 1 1)) ''net'' = Some (net0 1)
      \<and> maxActiveRequests (config (host0 1 1)) \<le> activeRequestCount (host0 1 1)"
    by (simp add: host0_simps)
  with t have d: "runNetwork env0 (host0 1 1) ''net'' 2 11 =
        (totalRequestCount (host0 1 1), (host0 1 1)\<lparr>totalRequestCount := totalRequestCount (host0 1 1) + 1\<rparr>,
         [CallbackInvoked 11 (totalRequestCount (host0 1 1))
            (Some (MAKE_ERR RUNTIME_REQUEST_REFUSED
               (''The number of allowed requests has been exceeded. active requests: ''
                  @ to_string (unat (activeRequestCount (host0 1 1))) @ '' allowed requests: ''
                  @ to_string (unat (maxActiveRequests (config (host0 1 1)))))))
            2 ((host0 1 1)\<lparr>totalRequestCount := totalRequestCount (host0 1 1) + 1\<rparr>)])"
    by blast
  have e: "totalRequestCount (host0 1 1) = 5" "totalRequestCount (host0 1 1) + 1 = 6"
    by (simp_all add: host0_simps)
  from t c1 have f: "refusing (fst (call_step env0 (''net'', 2, 11) (AtAdmission 6) (host0 1 1)))"
    by blast
  have g: "refusing (AtRefuseDecRef 6 1)" by simp
  with t have h: "executor_runs (snd (snd (call_step env0 (''net'', 2, 11) (AtRefuseDecRef 6 1) (host0 2 1)))) = []"
    by blast
  from r [unfolded p] r' [unfolded p p'] b [unfolded p] rc ai full cnt e1 e2 act e3 [unfolded p'] rc'
  have ex: "\<exists>s tr s' tr'.
        run_schedule env0 args0 sched0 (host0 0 0, [NotCalled, NotCalled], [])
          = (s, [AtForward 5, AtAdmission 6], tr)
        \<and> length (filter admitted [AtForward 5, AtAdmission 6])
             \<le> unat (maxActiveRequests (config (host0 0 0)))
        \<and> unat (activeRequestCount s) = length (filter counted [AtForward 5, AtAdmission 6])
        \<and> map_of (networks s) ''net'' = Some (net0 2)
        \<and> args0 ! 1 = (''net'', 2, 11)
        \<and> maxActiveRequests (config s) \<le> activeRequestCount s
        \<and> run_schedule env0 args0 (1 # sched1) (s, [AtForward 5, AtAdmission 6], tr)
          = (s', [InExecutor 5, Finished 6], tr')
        \<and> count_list sched1 1 = 3
        \<and> executor_runs (events_of 1 tr') = []
        \<and> invocations (events_of 1 tr') =
             [(11, 6,
               Some (MAKE_ERR RUNTIME_REQUEST_REFUSED
                 (''The number of allowed requests has been exceeded. active requests: ''
                    @ to_string (unat (activeRequestCount s)) @ '' allowed requests: ''
                    @ to_string (unat (maxActiveRequests (config (host0 0 0)))))),
               2)]
        \<and> activeRequestCount s = 1
        \<and> unat (activeRequestCount s') = length (filter counted [InExecutor 5, Finished 6])
        \<and> map_of (networks s') ''net'' = Some (net0 1)"
    by blast
  from d e have d': "runNetwork env0 (host0 1 1) ''net'' 2 11 =
        (5, (host0 1 1)\<lparr>totalRequestCount := 6\<rparr>,
         [CallbackInvoked 11 5
            (Some (MAKE_ERR RUNTIME_REQUEST_REFUSED
               (''The number of allowed requests has been exceeded. active requests: ''
                  @ to_string (unat (activeRequestCount (host0 1 1))) @ '' allowed requests: ''
                  @ to_string (unat (maxActiveRequests (config (host0 1 1)))))))
            2 ((host0 1 1)\<lparr>totalRequestCount := 6\<rparr>)])"
    by simp
  from a ex c1 d' f g h show ?thesis
    by blast
qed

end
